theory Spec2Isabelle
  imports Complex_Main
begin

unbundle bit_operations_syntax

section \<open>Data model\<close>

text \<open>
  The development embeds \<^verbatim>\<open>src/app/objvision.py\<close>: the constructor of
  \<^verbatim>\<open>VideoCapture\<close>, the decoder \<^verbatim>\<open>ImageProcessor.get_coordinates\<close>, the renderer
  \<^verbatim>\<open>ImageProcessor.draw_identified_objects\<close> and the frame loop of
  \<^verbatim>\<open>process_video\<close>.

  Conventions. Python integers are \<^typ>\<open>int\<close>. The floating-point numbers of the network
  output, of the confidences and of the thresholds are idealised as \<^typ>\<open>real\<close>: the
  comparisons, products and truncations of the source are taken exactly, and NaN and the
  infinities are outside the model. Strings are ASCII text; a character outside ASCII is
  treated as neither a digit, a letter nor white space. A raised exception is the
  \<open>Inl\<close> branch of a sum; the text of an f-string message is kept as a template tag with
  its argument.
\<close>

text \<open>
  The argument of \<^verbatim>\<open>VideoCapture\<close>, annotated \<^verbatim>\<open>Union[str, int, Path]\<close>: an integer, a
  string, a \<^verbatim>\<open>pathlib.Path\<close> object (kept as its string form), or a value of any other
  type.
\<close>

datatype video_path = PyInt int | PyStr string | PyPath string | PyOther

datatype message =
    Video_file_not_found string
  | Could_not_connect_to_video_stream video_path
  | Could_not_open_video_source video_path
  | Invalid_video_path_type
  | Argmax_of_an_empty_sequence
  | Not_enough_values_to_unpack

datatype exn =
    VideoProcessingError message
  | StreamConnectionError message
  | ValueError message
  | KeyError int
  | IndexError
  | ZeroDivisionError

type_synonym color = "int \<times> int \<times> int"

type_synonym box = "int \<times> int \<times> int \<times> int"

record detection =
  det_x :: int
  det_y :: int
  det_w :: int
  det_h :: int
  det_class :: int
  det_class_name :: string
  det_confidence :: real

text \<open>
  The fields of \<^verbatim>\<open>ImageProcessor\<close> the decoder and the renderer read: \<^verbatim>\<open>self.W\<close>,
  \<^verbatim>\<open>self.H\<close>, the dictionary \<^verbatim>\<open>self.classes\<close> and the list \<^verbatim>\<open>self.colors\<close>.
\<close>

record processor =
  proc_W :: int
  proc_H :: int
  proc_classes :: "int \<rightharpoonup> string"
  proc_colors :: "color list"

section \<open>Constants (constants.py)\<close>

definition NMS_THRESHOLD_OFFSET :: real where
  "NMS_THRESHOLD_OFFSET = 1 / 10"

definition COLOR_RED :: color where "COLOR_RED = (0, 0, 255)"
definition COLOR_GREEN :: color where "COLOR_GREEN = (0, 255, 0)"
definition COLOR_BLUE :: color where "COLOR_BLUE = (255, 0, 0)"
definition COLOR_CYAN :: color where "COLOR_CYAN = (255, 255, 0)"
definition COLOR_MAGENTA :: color where "COLOR_MAGENTA = (255, 0, 255)"
definition COLOR_YELLOW :: color where "COLOR_YELLOW = (0, 255, 255)"

definition PREDEFINED_COLORS :: "color list" where
  "PREDEFINED_COLORS =
     [COLOR_RED, COLOR_GREEN, COLOR_BLUE, COLOR_CYAN, COLOR_MAGENTA, COLOR_YELLOW]"

definition KEY_QUIT :: int where "KEY_QUIT = 113"

definition KEY_PAUSE :: int where "KEY_PAUSE = 112"

section \<open>ImageProcessor\<close>

subsection \<open>Construction\<close>

text \<open>
  \<^verbatim>\<open>for i, line in enumerate(lines): self.classes[i] = line.strip()\<close>: the catalog maps
  \<open>0 .. n - 1\<close> to the names in file order (the names are taken as already stripped).
\<close>

definition enumerate_classes :: "string list \<Rightarrow> (int \<rightharpoonup> string)" where
  "enumerate_classes names = map_of (zip (map int [0..<length names]) names)"

text \<open>
  \<^verbatim>\<open>_generate_colors\<close>. The branch for more classes than the palette draws from numpy's
  seeded generator; that generator is the parameter \<open>random_colors\<close>.
\<close>

definition generate_colors :: "(nat \<Rightarrow> color list) \<Rightarrow> nat \<Rightarrow> color list" where
  "generate_colors random_colors num_classes =
     (if num_classes \<le> length PREDEFINED_COLORS then take num_classes PREDEFINED_COLORS
      else random_colors num_classes)"

text \<open>
  The assignments of \<^verbatim>\<open>ImageProcessor.__init__\<close> that set the four fields, once the
  model files and the class names are loaded: \<^verbatim>\<open>self.W = img_size[0]\<close>,
  \<^verbatim>\<open>self.H = img_size[1]\<close>, the catalog, and the colours for \<^verbatim>\<open>len(self.classes)\<close>.
\<close>

definition ImageProcessor_init ::
  "(nat \<Rightarrow> color list) \<Rightarrow> int \<times> int \<Rightarrow> string list \<Rightarrow> processor" where
  "ImageProcessor_init random_colors img_size names =
     \<lparr>proc_W = fst img_size, proc_H = snd img_size,
      proc_classes = enumerate_classes names,
      proc_colors = generate_colors random_colors (length names)\<rparr>"

subsection \<open>Numeric helpers\<close>

text \<open>Python's \<^verbatim>\<open>int(r)\<close> on a float: truncation toward zero.\<close>

definition py_int :: "real \<Rightarrow> int" where
  "py_int r = (if 0 \<le> r then \<lfloor>r\<rfloor> else \<lceil>r\<rceil>)"

text \<open>The float floor division \<^verbatim>\<open>a // b\<close> for a positive divisor: the floor of the quotient, as a float.\<close>

definition floordiv :: "real \<Rightarrow> real \<Rightarrow> real" where
  "floordiv a b = of_int \<lfloor>a / b\<rfloor>"

text \<open>
  \<^verbatim>\<open>np.argmax\<close>: the index of the first occurrence of the maximum, found by one scan;
  on an empty vector numpy raises \<^verbatim>\<open>ValueError\<close>.
\<close>

fun argmax_scan :: "real list \<Rightarrow> nat \<Rightarrow> real \<Rightarrow> nat \<Rightarrow> nat" where
  "argmax_scan [] i best best_i = best_i"
| "argmax_scan (v # vs) i best best_i =
     (if best < v then argmax_scan vs (Suc i) v i else argmax_scan vs (Suc i) best best_i)"

definition argmax :: "real list \<Rightarrow> exn + nat" where
  "argmax scores =
     (case scores of
        [] \<Rightarrow> Inl (ValueError Argmax_of_an_empty_sequence)
      | v # vs \<Rightarrow> Inr (argmax_scan vs 1 v 0))"

subsection \<open>Non-maximum suppression\<close>

text \<open>
  Modelled from the spec: \<^verbatim>\<open>cv.dnn.NMSBoxes\<close> is a routine of the OpenCV library and its
  body is not part of the sources; what follows is the greedy procedure of section 4.2,
  step 4, and the glossary's ratio of overlap. The ratio of two boxes is the area of their
  intersection over the area of their union, and zero when the union is empty.
\<close>

definition iou :: "box \<Rightarrow> box \<Rightarrow> real" where
  "iou a b =
     (case a of (ax, ay, aw, ah) \<Rightarrow>
        (case b of (bx, by, bw, bh) \<Rightarrow>
           (let iw = max 0 (min (ax + aw) (bx + bw) - max ax bx);
                ih = max 0 (min (ay + ah) (by + bh) - max ay by);
                inter = iw * ih;
                union = aw * ah + bw * bh - inter
            in if union = 0 then 0 else real_of_int inter / real_of_int union)))"

text \<open>
  Modelled from the spec: the selection loop of the absent \<^verbatim>\<open>cv.dnn.NMSBoxes\<close>. The
  candidates arrive ordered by confidence; the first is emitted, and every remaining one
  whose overlap with it exceeds the threshold is discarded.
\<close>

function greedy_nms :: "('a \<Rightarrow> box) \<Rightarrow> real \<Rightarrow> 'a list \<Rightarrow> 'a list" where
  "greedy_nms box_of nms_threshold [] = []"
| "greedy_nms box_of nms_threshold (c # cs) =
     c # greedy_nms box_of nms_threshold
           (filter (\<lambda>d. \<not> nms_threshold < iou (box_of c) (box_of d)) cs)"
  by pat_completeness auto
termination
  by (relation "measure (\<lambda>(box_of, nms_threshold, cs). length cs)")
     (auto simp: less_Suc_eq_le)

text \<open>
  Modelled from the spec: the absent \<^verbatim>\<open>cv.dnn.NMSBoxes(boxes, confidences, score_threshold,
  nms_threshold)\<close>, returning the indices of the kept boxes in the order of selection. The
  candidates are numbered, sorted by confidence descending (stably), and passed to the
  greedy selection. The spec gives the score threshold no role at this stage: the rows at
  or below it were dropped before.
\<close>

definition NMSBoxes :: "box list \<Rightarrow> real list \<Rightarrow> real \<Rightarrow> real \<Rightarrow> nat list" where
  "NMSBoxes boxes scores score_threshold nms_threshold =
     map fst
       (greedy_nms (\<lambda>c. fst (snd c)) nms_threshold
          (sort_key (\<lambda>c. - snd (snd c)) (zip [0..<length boxes] (zip boxes scores))))"

subsection \<open>The decoder: get_coordinates\<close>

text \<open>
  The first loop of \<^verbatim>\<open>get_coordinates\<close>, over the rows of the output, with the three
  lists \<^verbatim>\<open>boxes\<close>, \<^verbatim>\<open>confidences\<close>, \<^verbatim>\<open>classIDs\<close> it appends to. A row of five entries
  or fewer has an empty score vector and \<^verbatim>\<open>np.argmax\<close> raises.
\<close>

fun get_coordinates_rows ::
  "processor \<Rightarrow> real \<Rightarrow> real list list \<Rightarrow> box list \<times> real list \<times> nat list
     \<Rightarrow> exn + box list \<times> real list \<times> nat list" where
  "get_coordinates_rows P conf [] acc = Inr acc"
| "get_coordinates_rows P conf (output # rest) (boxes, confidences, classIDs) =
     (let scores = drop 5 output in
      case argmax scores of
        Inl e \<Rightarrow> Inl e
      | Inr classID \<Rightarrow>
          let confidence = scores ! classID in
          if conf < confidence then
            (case take 4 output of
               [cx, cy, cw, ch] \<Rightarrow>
                 let x = cx * real_of_int (proc_W P);
                     y = cy * real_of_int (proc_H P);
                     w = cw * real_of_int (proc_W P);
                     h = ch * real_of_int (proc_H P);
                     p0 = (py_int (x - floordiv w 2), py_int (y - floordiv h 2))
                 in get_coordinates_rows P conf rest
                      (boxes @ [(fst p0, snd p0, py_int w, py_int h)],
                       confidences @ [confidence],
                       classIDs @ [classID])
             | _ \<Rightarrow> Inl (ValueError Not_enough_values_to_unpack))
          else get_coordinates_rows P conf rest (boxes, confidences, classIDs))"

text \<open>
  The second loop, over the indices NMS returned: each becomes a detection record; the
  name lookup \<^verbatim>\<open>self.classes[classIDs[i]]\<close> raises \<^verbatim>\<open>KeyError\<close> for an index that is
  not in the catalog, a list read out of range raises \<^verbatim>\<open>IndexError\<close>.
\<close>

fun get_coordinates_format ::
  "processor \<Rightarrow> box list \<Rightarrow> real list \<Rightarrow> nat list \<Rightarrow> nat list \<Rightarrow> exn + detection list" where
  "get_coordinates_format P boxes confidences classIDs [] = Inr []"
| "get_coordinates_format P boxes confidences classIDs (i # indices) =
     (if i < length boxes \<and> i < length classIDs \<and> i < length confidences then
        (case boxes ! i of (x, y, w, h) \<Rightarrow>
           (case proc_classes P (int (classIDs ! i)) of
              None \<Rightarrow> Inl (KeyError (int (classIDs ! i)))
            | Some name \<Rightarrow>
                (case get_coordinates_format P boxes confidences classIDs indices of
                   Inl e \<Rightarrow> Inl e
                 | Inr coordinates \<Rightarrow>
                     Inr (\<lparr>det_x = x, det_y = y, det_w = w, det_h = h,
                           det_class = int (classIDs ! i), det_class_name = name,
                           det_confidence = confidences ! i\<rparr> # coordinates))))
      else Inl IndexError)"

definition get_coordinates :: "processor \<Rightarrow> real list list \<Rightarrow> real \<Rightarrow> exn + detection list" where
  "get_coordinates P outputs conf =
     (case get_coordinates_rows P conf outputs ([], [], []) of
        Inl e \<Rightarrow> Inl e
      | Inr (boxes, confidences, classIDs) \<Rightarrow>
          let nms_threshold = conf - NMS_THRESHOLD_OFFSET;
              indices = NMSBoxes boxes confidences conf nms_threshold
          in if length indices = 0 then Inr []
             else get_coordinates_format P boxes confidences classIDs indices)"

text \<open>
  The values the body of the first loop computes for one row, named after its local
  variables: the class index \<^verbatim>\<open>classID\<close>, the score \<^verbatim>\<open>confidence\<close>, and the box it
  appends to \<^verbatim>\<open>boxes\<close>.
\<close>

definition row_classID :: "real list \<Rightarrow> nat" where
  "row_classID output = projr (argmax (drop 5 output))"

definition row_confidence :: "real list \<Rightarrow> real" where
  "row_confidence output = drop 5 output ! row_classID output"

definition row_box :: "processor \<Rightarrow> real list \<Rightarrow> box" where
  "row_box P output =
     (let x = output ! 0 * real_of_int (proc_W P);
          y = output ! 1 * real_of_int (proc_H P);
          w = output ! 2 * real_of_int (proc_W P);
          h = output ! 3 * real_of_int (proc_H P)
      in (py_int (x - floordiv w 2), py_int (y - floordiv h 2), py_int w, py_int h))"

text \<open>
  The box of a row in the words of the spec: the centre and the extent are scaled by the
  frame size, and the corner is the centre minus half the extent, truncated toward zero.
\<close>

definition spec_box :: "int \<Rightarrow> int \<Rightarrow> real list \<Rightarrow> box" where
  "spec_box frame_w frame_h output =
     (let cx = output ! 0 * real_of_int frame_w;
          cy = output ! 1 * real_of_int frame_h;
          w = output ! 2 * real_of_int frame_w;
          h = output ! 3 * real_of_int frame_h
      in (py_int (cx - w / 2), py_int (cy - h / 2), py_int w, py_int h))"

subsection \<open>The renderer: draw_identified_objects\<close>

text \<open>
  The image is drawn on in place; it is modelled by the list of drawing calls made on it.
  The label \<^verbatim>\<open>f"{self.classes[classID]} {confidence:.2f}"\<close> is kept as the pair of the name
  and the confidence. A record always carries its seven keys, so the default of
  \<^verbatim>\<open>coordinate.get('confidence', 0.0)\<close> is never taken.
\<close>

datatype draw_op =
    Rectangle "int \<times> int" "int \<times> int" color int
  | PutText "string \<times> real" "int \<times> int" color

fun draw_identified_objects ::
  "processor \<Rightarrow> draw_op list \<Rightarrow> detection list \<Rightarrow> exn + draw_op list" where
  "draw_identified_objects P img [] = Inr img"
| "draw_identified_objects P img (coordinate # coordinates) =
     (let x = det_x coordinate; y = det_y coordinate;
          w = det_w coordinate; h = det_h coordinate;
          classID = det_class coordinate;
          confidence = det_confidence coordinate
      in if length (proc_colors P) = 0 then Inl ZeroDivisionError
         else
           let color = proc_colors P ! nat (classID mod int (length (proc_colors P)));
               img1 = img @ [Rectangle (x, y) (x + w, y + h) color 2]
           in case proc_classes P classID of
                None \<Rightarrow> Inl (KeyError classID)
              | Some name \<Rightarrow>
                  draw_identified_objects P
                    (img1 @ [PutText (name, confidence) (x, y - 10) color]) coordinates)"

section \<open>VideoCapture\<close>

subsection \<open>String helpers\<close>

text \<open>\<^verbatim>\<open>str.isdigit\<close>: at least one character, and every character a digit.\<close>

definition isdigit :: "string \<Rightarrow> bool" where
  "isdigit s = (s \<noteq> [] \<and> list_all (\<lambda>c. c \<in> set ''0123456789'') s)"

text \<open>\<^verbatim>\<open>int(s)\<close> on a string of digits: its decimal value.\<close>

definition int_of_digits :: "string \<Rightarrow> int" where
  "int_of_digits s = foldl (\<lambda>a c. 10 * a + (of_char c - 48)) 0 s"

definition lower_char :: "char \<Rightarrow> char" where
  "lower_char c =
     (case map_of (zip ''ABCDEFGHIJKLMNOPQRSTUVWXYZ'' ''abcdefghijklmnopqrstuvwxyz'') c of
        Some d \<Rightarrow> d
      | None \<Rightarrow> c)"

definition lower :: "string \<Rightarrow> string" where
  "lower s = map lower_char s"

text \<open>
  The ASCII characters \<^verbatim>\<open>str.strip\<close> removes: tab, line feed, vertical tab, form feed,
  carriage return, the four separators 28 to 31, and the space.
\<close>

definition isspace :: "char \<Rightarrow> bool" where
  "isspace c = ((of_char c :: nat) \<in> {9, 10, 11, 12, 13, 28, 29, 30, 31, 32})"

definition strip :: "string \<Rightarrow> string" where
  "strip s = rev (dropWhile isspace (rev (dropWhile isspace s)))"

definition STREAM_URL_PREFIXES :: "string list" where
  "STREAM_URL_PREFIXES = [''http://'', ''https://'', ''rtsp://'', ''rtmp://'', ''udp://'']"

text \<open>\<^verbatim>\<open>s.startswith(prefixes)\<close> with a tuple of prefixes.\<close>

definition startswith :: "string \<Rightarrow> string list \<Rightarrow> bool" where
  "startswith s prefixes = list_ex (\<lambda>p. take (length p) s = p) prefixes"

subsection \<open>The world outside the program\<close>

text \<open>
  What \<^verbatim>\<open>VideoCapture.__init__\<close> asks of pathlib, the file system and OpenCV. A path is
  kept as its string form. \<open>cv_isOpened a\<close> is the answer of \<^verbatim>\<open>isOpened()\<close> on the
  capture \<^verbatim>\<open>cv.VideoCapture(a)\<close>, and the four \<open>cv_get\<close> fields are its properties.
\<close>

datatype cap_arg = CameraIndex int | StreamURL string | FileName string

record world =
  Path_str :: "string \<Rightarrow> string"
  is_absolute :: "string \<Rightarrow> bool"
  project_root_join :: "string \<Rightarrow> string"
  path_exists :: "string \<Rightarrow> bool"
  cv_isOpened :: "cap_arg \<Rightarrow> bool"
  cv_get_width :: "cap_arg \<Rightarrow> real"
  cv_get_height :: "cap_arg \<Rightarrow> real"
  cv_get_fps :: "cap_arg \<Rightarrow> real"
  cv_get_frame_count :: "cap_arg \<Rightarrow> real"

record VideoCapture =
  cap :: cap_arg
  is_camera :: bool
  is_stream :: bool
  vc_w :: int
  vc_h :: int
  vc_fps :: real
  vc_frame_count :: int

subsection \<open>The constructor\<close>

text \<open>
  \<^verbatim>\<open>video_path_obj\<close> of the file branch: the path itself when absolute, the path under the
  project root otherwise.
\<close>

definition video_path_obj :: "world \<Rightarrow> string \<Rightarrow> string" where
  "video_path_obj E s =
     (if is_absolute E (Path_str E s) then Path_str E s else project_root_join E s)"

text \<open>
  The first statement of \<^verbatim>\<open>__init__\<close>, the chain \<^verbatim>\<open>if / elif / else\<close> that chooses what
  to open: it yields the argument given to \<^verbatim>\<open>cv.VideoCapture\<close> with the two flags
  \<^verbatim>\<open>is_camera\<close> and \<^verbatim>\<open>is_stream\<close>, or raises before any capture is created. The two
  tests are \<^verbatim>\<open>isinstance(video_path, int)\<close> and \<^verbatim>\<open>isinstance(video_path, str)\<close>; a
  \<^verbatim>\<open>Path\<close> object passes neither and reaches the final \<^verbatim>\<open>else\<close>, as every other
  value does.
\<close>

definition choose_source :: "world \<Rightarrow> video_path \<Rightarrow> exn + cap_arg \<times> bool \<times> bool" where
  "choose_source E video_path =
     (case video_path of
        PyInt n \<Rightarrow> Inr (CameraIndex n, True, False)
      | PyStr s \<Rightarrow>
          if isdigit s then Inr (CameraIndex (int_of_digits s), True, False)
          else
            let video_path_lower = strip (lower s) in
            if startswith video_path_lower STREAM_URL_PREFIXES
            then Inr (StreamURL s, False, True)
            else
              if \<not> path_exists E (video_path_obj E s)
              then Inl (VideoProcessingError (Video_file_not_found (video_path_obj E s)))
              else Inr (FileName (video_path_obj E s), False, False)
      | PyPath p \<Rightarrow> Inl (ValueError Invalid_video_path_type)
      | PyOther \<Rightarrow> Inl (ValueError Invalid_video_path_type))"

text \<open>
  \<^verbatim>\<open>VideoCapture.__init__\<close>. The first component of the result lists the calls of
  \<^verbatim>\<open>cv.VideoCapture\<close> that were made, the second is the object or the exception.
\<close>

definition VideoCapture_init :: "world \<Rightarrow> video_path \<Rightarrow> cap_arg list \<times> (exn + VideoCapture)" where
  "VideoCapture_init E video_path =
     (case choose_source E video_path of
        Inl e \<Rightarrow> ([], Inl e)
      | Inr (a, camera, stream) \<Rightarrow>
          if \<not> cv_isOpened E a then
            ([a],
             if stream
             then Inl (StreamConnectionError (Could_not_connect_to_video_stream video_path))
             else Inl (VideoProcessingError (Could_not_open_video_source video_path)))
          else
            ([a],
             Inr \<lparr>cap = a, is_camera = camera, is_stream = stream,
                  vc_w = py_int (cv_get_width E a), vc_h = py_int (cv_get_height E a),
                  vc_fps = cv_get_fps E a,
                  vc_frame_count = py_int (cv_get_frame_count E a)\<rparr>))"

definition get_window_size :: "VideoCapture \<Rightarrow> int \<times> int" where
  "get_window_size vc = (vc_w vc, vc_h vc)"

subsection \<open>Classification as the spec words it\<close>

datatype source_kind = Camera | Stream | File

text \<open>The kind of source a call of \<^verbatim>\<open>cv.VideoCapture\<close> was made for.\<close>

fun kind_of :: "cap_arg \<Rightarrow> source_kind" where
  "kind_of (CameraIndex n) = Camera"
| "kind_of (StreamURL u) = Stream"
| "kind_of (FileName p) = File"

text \<open>
  The classification in the words of the spec: all digits is a camera; a lower-cased
  prefix that matches a known scheme is a stream; anything else is a file.
\<close>

definition spec_classify :: "string \<Rightarrow> source_kind" where
  "spec_classify s =
     (if isdigit s then Camera
      else if startswith (lower s) STREAM_URL_PREFIXES then Stream
      else File)"

section \<open>The frame loop of process_video\<close>

text \<open>
  The loop is run against the list of frames the capture will deliver and the list of
  what \<^verbatim>\<open>cv.waitKey(1)\<close> does on its successive calls: it returns a key code, or the
  operator's interrupt arrives. The state holds the local variables of the loop and a log
  of the calls made on the capture, the processor, the writer and the display.
\<close>

datatype key_event = Key int | KeyboardInterrupt

datatype 'e stopped = End_of_video | User_quit | Interrupted | Unexpected_error 'e

record ('f, 'd) loop_state =
  cap_frames :: "'f list"
  frame :: "'f option"
  paused :: bool
  frame_number :: int
  all_detections :: "(int \<times> 'd list) list"
  reads :: nat
  processed :: "'f list"
  written :: "'f list"
  shown :: "'f list"

definition initial_state :: "'f list \<Rightarrow> ('f, 'd) loop_state" where
  "initial_state frames =
     \<lparr>cap_frames = frames, frame = None, paused = False, frame_number = 0,
      all_detections = [], reads = 0, processed = [], written = [], shown = []\<rparr>"

text \<open>
  \<^verbatim>\<open>if not paused: frame = video_cap.get_frame(); if frame is None: break\<close>.
  The result is \<open>Inl\<close> for the \<^verbatim>\<open>break\<close>.
\<close>

definition read_frame ::
  "('f, 'd) loop_state \<Rightarrow> ('e stopped \<times> ('f, 'd) loop_state) + ('f, 'd) loop_state" where
  "read_frame s =
     (if \<not> paused s then
        (case cap_frames s of
           [] \<Rightarrow> Inl (End_of_video, s\<lparr>frame := None, reads := Suc (reads s)\<rparr>)
         | f # fs \<Rightarrow> Inr (s\<lparr>cap_frames := fs, frame := Some f, reads := Suc (reads s)\<rparr>))
      else Inr s)"

text \<open>
  \<^verbatim>\<open>if frame is not None:\<close> detect, append to \<^verbatim>\<open>all_detections\<close>, write when there is
  a writer, show when displaying. An exception of \<^verbatim>\<open>process_image\<close> leaves the loop.
\<close>

definition process_frame ::
  "('f \<Rightarrow> 'e + 'd list) \<Rightarrow> bool \<Rightarrow> bool \<Rightarrow> ('f, 'd) loop_state
     \<Rightarrow> ('e stopped \<times> ('f, 'd) loop_state) + ('f, 'd) loop_state" where
  "process_frame process_image video_writer display s =
     (case frame s of
        None \<Rightarrow> Inr s
      | Some f \<Rightarrow>
          (case process_image f of
             Inl e \<Rightarrow> Inl (Unexpected_error e, s\<lparr>processed := processed s @ [f]\<rparr>)
           | Inr detections \<Rightarrow>
               Inr (s\<lparr>processed := processed s @ [f],
                      all_detections := all_detections s @ [(frame_number s, detections)],
                      written := (if video_writer then written s @ [f] else written s),
                      shown := (if display then shown s @ [f] else shown s)\<rparr>)))"

text \<open>
  \<^verbatim>\<open>key = cv.waitKey(1) & 0xFF\<close> and what follows it: quit, toggle the pause, and
  count the frame when not paused.
\<close>

definition handle_key ::
  "('f, 'd) loop_state \<Rightarrow> key_event
     \<Rightarrow> ('e stopped \<times> ('f, 'd) loop_state) + ('f, 'd) loop_state" where
  "handle_key s ev =
     (case ev of
        KeyboardInterrupt \<Rightarrow> Inl (Interrupted, s)
      | Key raw \<Rightarrow>
          let key = raw AND 255 in
          if key = KEY_QUIT then Inl (User_quit, s)
          else
            let s1 = (if key = KEY_PAUSE then s\<lparr>paused := \<not> paused s\<rparr> else s)
            in Inr (if \<not> paused s1 then s1\<lparr>frame_number := frame_number s1 + 1\<rparr> else s1))"

text \<open>The part of one iteration before the call of \<^verbatim>\<open>cv.waitKey\<close>.\<close>

definition before_key ::
  "('f \<Rightarrow> 'e + 'd list) \<Rightarrow> bool \<Rightarrow> bool \<Rightarrow> ('f, 'd) loop_state
     \<Rightarrow> ('e stopped \<times> ('f, 'd) loop_state) + ('f, 'd) loop_state" where
  "before_key process_image video_writer display s =
     (case read_frame s of
        Inl b \<Rightarrow> Inl b
      | Inr s1 \<Rightarrow> process_frame process_image video_writer display s1)"

text \<open>
  \<^verbatim>\<open>while True\<close>, against a list of key events. The result is the state reached and
  the reason the loop was left; the reason is \<open>None\<close> when the events are used up and the
  loop is waiting in \<^verbatim>\<open>cv.waitKey\<close> for the next one.
\<close>

fun loop ::
  "('f \<Rightarrow> 'e + 'd list) \<Rightarrow> bool \<Rightarrow> bool \<Rightarrow> ('f, 'd) loop_state \<Rightarrow> key_event list
     \<Rightarrow> ('f, 'd) loop_state \<times> 'e stopped option" where
  "loop process_image video_writer display s [] =
     (case before_key process_image video_writer display s of
        Inl (why, s1) \<Rightarrow> (s1, Some why)
      | Inr s1 \<Rightarrow> (s1, None))"
| "loop process_image video_writer display s (ev # evs) =
     (case before_key process_image video_writer display s of
        Inl (why, s1) \<Rightarrow> (s1, Some why)
      | Inr s1 \<Rightarrow>
          (case handle_key s1 ev of
             Inl (why, s2) \<Rightarrow> (s2, Some why)
           | Inr s2 \<Rightarrow> loop process_image video_writer display s2 evs))"

text \<open>
  The loop and what follows it in \<^verbatim>\<open>process_video\<close>: an exception inside the loop is
  raised again as \<^verbatim>\<open>VideoProcessingError\<close> (here \<open>Inl\<close> with its cause); after the end of
  the video, a quit or an interrupt the accumulated list is returned. \<open>None\<close>: the
  function has not returned after these key events.
\<close>

definition process_video_loop ::
  "('f \<Rightarrow> 'e + 'd list) \<Rightarrow> bool \<Rightarrow> bool \<Rightarrow> 'f list \<Rightarrow> key_event list
     \<Rightarrow> ('e + (int \<times> 'd list) list) option" where
  "process_video_loop process_image video_writer display frames evs =
     (case loop process_image video_writer display (initial_state frames) evs of
        (s, None) \<Rightarrow> None
      | (s, Some (Unexpected_error e)) \<Rightarrow> Some (Inl e)
      | (s, Some why) \<Rightarrow> Some (Inr (all_detections s)))"

section \<open>Example inputs\<close>

text \<open>A world in which no file exists and no capture opens, and one in which all do.\<close>

definition closed_world :: world where
  "closed_world =
     \<lparr>Path_str = (\<lambda>s. s), is_absolute = (\<lambda>s. take 1 s = ''/''),
      project_root_join = (\<lambda>s. ''/project/'' @ s),
      path_exists = (\<lambda>p. False), cv_isOpened = (\<lambda>a. False),
      cv_get_width = (\<lambda>a. 0), cv_get_height = (\<lambda>a. 0),
      cv_get_fps = (\<lambda>a. 0), cv_get_frame_count = (\<lambda>a. 0)\<rparr>"

definition open_world :: world where
  "open_world =
     \<lparr>Path_str = (\<lambda>s. s), is_absolute = (\<lambda>s. take 1 s = ''/''),
      project_root_join = (\<lambda>s. ''/project/'' @ s),
      path_exists = (\<lambda>p. True), cv_isOpened = (\<lambda>a. True),
      cv_get_width = (\<lambda>a. 640), cv_get_height = (\<lambda>a. 480),
      cv_get_fps = (\<lambda>a. 30), cv_get_frame_count = (\<lambda>a. 100)\<rparr>"

text \<open>A processor for a 20 by 20 frame and a catalog of three classes.\<close>

definition example_processor :: processor where
  "example_processor =
     ImageProcessor_init (\<lambda>n. []) (20, 20) [''car'', ''bus'', ''dog'']"

definition example_detection :: detection where
  "example_detection =
     \<lparr>det_x = 1, det_y = 2, det_w = 3, det_h = 4, det_class = 3,
      det_class_name = ''car'', det_confidence = 9 / 10\<rparr>"

section \<open>The renderer and an out-of-range class index\<close>

lemma example_processor_simps:
  "proc_W example_processor = 20"
  "proc_H example_processor = 20"
  "proc_colors example_processor = [COLOR_RED, COLOR_GREEN, COLOR_BLUE]"
  "proc_classes example_processor 0 = Some ''car''"
  "proc_classes example_processor 1 = Some ''bus''"
  "proc_classes example_processor 2 = Some ''dog''"
  "proc_classes example_processor 3 = None"
  by (simp_all add: example_processor_def ImageProcessor_init_def enumerate_classes_def
      generate_colors_def PREDEFINED_COLORS_def upt_rec)

text \<open>
  Claim C6. The renderer is meant to complete for every detection record, the colour
  being the one at the class index modulo the length of the colour list. The colour
  lookup does wrap around, but the label lookup \<^verbatim>\<open>self.classes[classID]\<close> on the next
  lines does not: on a catalog of three classes a record with class index 3 gets the
  colour at index 0 and then the call raises \<^verbatim>\<open>KeyError\<close>.
\<close>

theorem draw_out_of_range_class_raises:
  "length (proc_colors example_processor) = 3 \<and>
   det_class example_detection = 3 \<and>
   draw_identified_objects example_processor [] [example_detection] = Inl (KeyError 3)"
  by (simp add: example_processor_simps example_detection_def)

section \<open>The frame loop\<close>

subsection \<open>The loop while paused\<close>

text \<open>
  Claim C1. While paused the loop is meant to pull no frame, to run no detection, render
  or write, and to append nothing, while still polling for keys. The source guards the
  read with \<^verbatim>\<open>if not paused\<close> but the processing with \<^verbatim>\<open>if frame is not None\<close>, and
  the variable \<^verbatim>\<open>frame\<close> still holds the last frame read. On a video of two frames with
  the keys \<^verbatim>\<open>p\<close>, none, \<^verbatim>\<open>q\<close>: the first iteration reads and processes frame 10 and
  pauses; the two iterations spent paused read nothing (one read in all) but each runs
  the detection on frame 10 again, appends another entry for frame number 0, writes and
  shows the frame again; the quit key then ends the loop.
\<close>

theorem paused_loop_processes_again:
  "loop (\<lambda>f. Inr [f] :: unit + nat list) True True (initial_state [10, 11 :: nat])
      [Key 112, Key (- 1), Key 113]
   = (\<lparr>cap_frames = [11], frame = Some 10, paused = True, frame_number = 0,
       all_detections = [(0, [10]), (0, [10]), (0, [10])], reads = 1,
       processed = [10, 10, 10], written = [10, 10, 10], shown = [10, 10, 10]\<rparr>,
      Some User_quit)"
  by (simp add: initial_state_def before_key_def read_frame_def process_frame_def
      handle_key_def KEY_QUIT_def KEY_PAUSE_def)

subsection \<open>What one iteration changes\<close>

lemma read_frame_Inr:
  "read_frame s = Inr s1 \<Longrightarrow>
     frame_number s1 = frame_number s \<and> all_detections s1 = all_detections s \<and>
     paused s1 = paused s"
  by (auto simp: read_frame_def split: if_splits list.splits)

lemma read_frame_Inl:
  "read_frame s = Inl (why, s1) \<Longrightarrow>
     frame_number s1 = frame_number s \<and> all_detections s1 = all_detections s \<and>
     paused s1 = paused s"
  by (auto simp: read_frame_def split: if_splits list.splits)

lemma process_frame_Inr:
  "process_frame pim w d s = Inr s1 \<Longrightarrow>
     frame_number s1 = frame_number s \<and> paused s1 = paused s \<and>
     (all_detections s1 = all_detections s \<or>
      (\<exists>ds. all_detections s1 = all_detections s @ [(frame_number s, ds)]))"
  by (auto simp: process_frame_def split: option.splits sum.splits)

lemma process_frame_Inl:
  "process_frame pim w d s = Inl (why, s1) \<Longrightarrow>
     frame_number s1 = frame_number s \<and> paused s1 = paused s \<and>
     all_detections s1 = all_detections s"
  by (auto simp: process_frame_def split: option.splits sum.splits)

lemma before_key_Inr:
  "before_key pim w d s = Inr s1 \<Longrightarrow>
     frame_number s1 = frame_number s \<and> paused s1 = paused s \<and>
     (all_detections s1 = all_detections s \<or>
      (\<exists>ds. all_detections s1 = all_detections s @ [(frame_number s, ds)]))"
  unfolding before_key_def
  by (auto split: sum.splits dest!: read_frame_Inr process_frame_Inr)

lemma before_key_Inl:
  "before_key pim w d s = Inl (why, s1) \<Longrightarrow>
     frame_number s1 = frame_number s \<and> paused s1 = paused s \<and>
     all_detections s1 = all_detections s"
  unfolding before_key_def
  by (auto split: sum.splits dest!: read_frame_Inr read_frame_Inl process_frame_Inl)

lemma handle_key_Inr:
  "handle_key s ev = Inr s2 \<Longrightarrow>
     all_detections s2 = all_detections s \<and> frame_number s \<le> frame_number s2"
  by (auto simp: handle_key_def Let_def split: key_event.splits if_splits)

lemma handle_key_Inl:
  "handle_key s ev = Inl (why, s2) \<Longrightarrow> s2 = s"
  by (auto simp: handle_key_def Let_def split: key_event.splits if_splits)

lemma loop_extends:
  fixes pim :: "'f \<Rightarrow> 'e + 'd list"
  shows "frame_number s \<le> frame_number (fst (loop pim w d s evs)) \<and>
   (\<exists>zs. all_detections (fst (loop pim w d s evs)) = all_detections s @ zs)"
proof (induction evs arbitrary: s)
  case Nil
  show ?case
    by (auto split: sum.splits dest!: before_key_Inr before_key_Inl)
next
  case (Cons ev evs)
  show ?case
  proof (cases "before_key pim w d s")
    case (Inl b)
    then show ?thesis
      by (cases b) (auto dest!: before_key_Inl)
  next
    case (Inr s1)
    note b = before_key_Inr [OF Inr]
    show ?thesis
    proof (cases "handle_key s1 ev :: ('e stopped \<times> ('f, 'd) loop_state) + ('f, 'd) loop_state")
      case (Inl c)
      then show ?thesis using Inr b
        by (cases c) (auto dest: handle_key_Inl)
    next
      case (Inr s2)
      note h = handle_key_Inr [OF Inr]
      from Cons.IH [of s2] obtain zs where
        z: "frame_number s2 \<le> frame_number (fst (loop pim w d s2 evs))"
           "all_detections (fst (loop pim w d s2 evs)) = all_detections s2 @ zs"
        by blast
      show ?thesis using \<open>before_key pim w d s = Inr s1\<close> Inr b h z
        by auto
    qed
  qed
qed

lemma loop_append_extends:
  fixes pim :: "'f \<Rightarrow> 'e + 'd list"
  shows "frame_number (fst (loop pim w d s evs)) \<le> frame_number (fst (loop pim w d s (evs @ later))) \<and>
   (\<exists>zs. all_detections (fst (loop pim w d s (evs @ later))) =
         all_detections (fst (loop pim w d s evs)) @ zs)"
proof (induction evs arbitrary: s)
  case Nil
  show ?case
  proof (cases "before_key pim w d s")
    case (Inl b)
    then show ?thesis
      by (cases b; cases later) auto
  next
    case (Inr s1)
    show ?thesis
    proof (cases later)
      case Nil
      then show ?thesis by simp
    next
      case (Cons ev evs')
      show ?thesis
      proof (cases "handle_key s1 ev :: ('e stopped \<times> ('f, 'd) loop_state) + ('f, 'd) loop_state")
        case (Inl c)
        then show ?thesis using Inr Cons
          by (cases c) (auto dest: handle_key_Inl)
      next
        case (Inr s2)
        note h = handle_key_Inr [OF Inr]
        from loop_extends [of s2 pim w d evs'] obtain zs where
          z: "frame_number s2 \<le> frame_number (fst (loop pim w d s2 evs'))"
             "all_detections (fst (loop pim w d s2 evs')) = all_detections s2 @ zs"
          by blast
        show ?thesis using \<open>before_key pim w d s = Inr s1\<close> Inr Cons h z
          by auto
      qed
    qed
  qed
next
  case (Cons ev evs)
  show ?case
  proof (cases "before_key pim w d s")
    case (Inl b)
    then show ?thesis
      by (cases b) auto
  next
    case (Inr s1)
    show ?thesis
    proof (cases "handle_key s1 ev :: ('e stopped \<times> ('f, 'd) loop_state) + ('f, 'd) loop_state")
      case (Inl c)
      then show ?thesis using Inr
        by (cases c) auto
    next
      case (Inr s2)
      show ?thesis using \<open>before_key pim w d s = Inr s1\<close> Inr Cons.IH [of s2]
        by auto
    qed
  qed
qed

lemma loop_sorted:
  fixes pim :: "'f \<Rightarrow> 'e + 'd list"
  assumes "sorted (map fst (all_detections s))"
    and "\<forall>n\<in>set (map fst (all_detections s)). n \<le> frame_number s"
  shows "sorted (map fst (all_detections (fst (loop pim w d s evs))))"
  using assms
proof (induction evs arbitrary: s)
  case Nil
  then show ?case
    by (auto simp: sorted_append split: sum.splits dest!: before_key_Inr before_key_Inl)
next
  case (Cons ev evs)
  show ?case
  proof (cases "before_key pim w d s")
    case (Inl b)
    then show ?thesis using Cons.prems
      by (cases b) (auto dest!: before_key_Inl)
  next
    case (Inr s1)
    note b = before_key_Inr [OF Inr]
    have s1: "sorted (map fst (all_detections s1))"
      "\<forall>n\<in>set (map fst (all_detections s1)). n \<le> frame_number s1"
      using b Cons.prems by (auto simp: sorted_append)
    show ?thesis
    proof (cases "handle_key s1 ev :: ('e stopped \<times> ('f, 'd) loop_state) + ('f, 'd) loop_state")
      case (Inl c)
      then show ?thesis using Inr s1
        by (cases c) (auto dest: handle_key_Inl)
    next
      case (Inr s2)
      note h = handle_key_Inr [OF Inr]
      have "sorted (map fst (all_detections s2))"
        "\<forall>n\<in>set (map fst (all_detections s2)). n \<le> frame_number s2"
        using h s1 by force+
      from Cons.IH [OF this] show ?thesis
        using \<open>before_key pim w d s = Inr s1\<close> Inr by simp
    qed
  qed
qed

subsection \<open>Frame numbers never decrease\<close>

text \<open>
  Claim C10. In every execution of the loop, whatever the keys (pause toggles, quit,
  interrupt) and whatever \<^verbatim>\<open>process_image\<close> does, the frame counter never decreases and
  the frame numbers of the entries of \<^verbatim>\<open>all_detections\<close> are nondecreasing. Stated on
  the states reached after any key events \<open>evs\<close> and after any continuation
  \<open>evs @ later\<close>: the counter has not decreased, the list has only been appended to, and
  its frame numbers are sorted. An interrupt that arrives elsewhere in the body finds the
  list and the counter as they are at one of these states.
\<close>

theorem frame_numbers_never_decrease:
  fixes process_image :: "'f \<Rightarrow> 'e + 'd list"
  shows
  "frame_number (fst (loop process_image video_writer display (initial_state frames) evs))
     \<le> frame_number
          (fst (loop process_image video_writer display (initial_state frames) (evs @ later))) \<and>
   (\<exists>zs. all_detections
           (fst (loop process_image video_writer display (initial_state frames) (evs @ later))) =
         all_detections
           (fst (loop process_image video_writer display (initial_state frames) evs)) @ zs) \<and>
   sorted (map fst (all_detections
           (fst (loop process_image video_writer display (initial_state frames) (evs @ later)))))"
proof -
  have "sorted (map fst (all_detections (initial_state frames :: ('f, 'd) loop_state)))"
    "\<forall>n\<in>set (map fst (all_detections (initial_state frames :: ('f, 'd) loop_state))).
        n \<le> frame_number (initial_state frames :: ('f, 'd) loop_state)"
    by (simp_all add: initial_state_def)
  from loop_sorted [OF this, of process_image video_writer display "evs @ later"]
    loop_append_extends [of process_image video_writer display "initial_state frames" evs later]
  show ?thesis
    by blast
qed

subsection \<open>A full run without pause or quit\<close>

lemma loop_plain_run:
  fixes pim :: "'f \<Rightarrow> 'e + 'd list"
  assumes "\<not> paused s"
    and "\<forall>f\<in>set (cap_frames s). \<exists>ds. pim f = Inr ds"
    and "\<forall>ev\<in>set evs. \<exists>raw. ev = Key raw \<and> raw AND 255 \<noteq> KEY_QUIT \<and> raw AND 255 \<noteq> KEY_PAUSE"
    and "length (cap_frames s) \<le> length evs"
  shows "\<exists>s'. loop pim w d s evs = (s', Some End_of_video) \<and>
           map fst (all_detections s') =
             map fst (all_detections s) @
             map (\<lambda>i. frame_number s + int i) [0..<length (cap_frames s)]"
  using assms
proof (induction evs arbitrary: s)
  case Nil
  then show ?case
    by (simp add: before_key_def read_frame_def)
next
  case (Cons ev evs)
  show ?case
  proof (cases "cap_frames s")
    case Nil
    then show ?thesis using Cons.prems(1)
      by (simp add: before_key_def read_frame_def)
  next
    case (Cons f fs)
    from Cons.prems(2) Cons obtain ds where ds: "pim f = Inr ds"
      by auto
    from Cons.prems(3) obtain raw where
      raw: "ev = Key raw" "raw AND 255 \<noteq> KEY_QUIT" "raw AND 255 \<noteq> KEY_PAUSE"
      by auto
    define s2 where "s2 =
      s\<lparr>cap_frames := fs, frame := Some f, reads := Suc (reads s),
        processed := processed s @ [f],
        all_detections := all_detections s @ [(frame_number s, ds)],
        written := (if w then written s @ [f] else written s),
        shown := (if d then shown s @ [f] else shown s),
        frame_number := frame_number s + 1\<rparr>"
    have step: "loop pim w d s (ev # evs) = loop pim w d s2 evs"
      using Cons Cons.prems(1) ds raw
      by (simp add: before_key_def read_frame_def process_frame_def handle_key_def s2_def)
    have "\<exists>s'. loop pim w d s2 evs = (s', Some End_of_video) \<and>
           map fst (all_detections s') =
             map fst (all_detections s2) @
             map (\<lambda>i. frame_number s2 + int i) [0..<length (cap_frames s2)]"
    proof (rule Cons.IH)
      show "\<not> paused s2" using Cons.prems(1) by (simp add: s2_def)
      show "\<forall>f\<in>set (cap_frames s2). \<exists>ds. pim f = Inr ds"
        using Cons.prems(2) Cons by (simp add: s2_def)
      show "\<forall>ev\<in>set evs. \<exists>raw. ev = Key raw \<and> raw AND 255 \<noteq> KEY_QUIT \<and> raw AND 255 \<noteq> KEY_PAUSE"
        using Cons.prems(3) by simp
      show "length (cap_frames s2) \<le> length evs"
        using Cons.prems(4) Cons by (simp add: s2_def)
    qed
    then obtain s' where s': "loop pim w d s2 evs = (s', Some End_of_video)"
      "map fst (all_detections s') =
             map fst (all_detections s2) @
             map (\<lambda>i. frame_number s2 + int i) [0..<length (cap_frames s2)]"
      by blast
    have "map (\<lambda>i. frame_number s + int i) [0..<length (cap_frames s)] =
          frame_number s # map (\<lambda>i. frame_number s + 1 + int i) [0..<length fs]"
      using Cons by (simp add: map_upt_Suc del: upt_Suc)
    then show ?thesis using step s'
      by (simp add: s2_def)
  qed
qed

text \<open>
  Claim C9. A full run over a source of N frames, in which no frame makes
  \<^verbatim>\<open>process_image\<close> raise and no key is the pause or the quit key, returns (once N keys
  have been polled) an accumulated list of exactly N entries whose frame numbers are
  0, 1, ..., N - 1 in order.
\<close>

theorem full_run_frame_indices:
  fixes process_image :: "'f \<Rightarrow> 'e + 'd list"
  assumes "\<forall>f\<in>set frames. \<exists>ds. process_image f = Inr ds"
    and "\<forall>ev\<in>set evs. \<exists>raw. ev = Key raw \<and> raw AND 255 \<noteq> KEY_QUIT \<and> raw AND 255 \<noteq> KEY_PAUSE"
    and "length frames \<le> length evs"
  shows "\<exists>dets. process_video_loop process_image video_writer display frames evs = Some (Inr dets) \<and>
           map fst dets = map int [0..<length frames]"
proof -
  have "\<exists>s'. loop process_image video_writer display (initial_state frames) evs = (s', Some End_of_video) \<and>
           map fst (all_detections s') =
             map fst (all_detections (initial_state frames :: ('f, 'd) loop_state)) @
             map (\<lambda>i. frame_number (initial_state frames :: ('f, 'd) loop_state) + int i)
               [0..<length (cap_frames (initial_state frames :: ('f, 'd) loop_state))]"
    by (rule loop_plain_run) (use assms in \<open>simp_all add: initial_state_def\<close>)
  then show ?thesis
    by (auto simp: process_video_loop_def initial_state_def)
qed

theorem full_run_frame_indices_witness:
  "process_video_loop (\<lambda>f. Inr [f] :: unit + nat list) False True [10, 11, 12 :: nat]
      [Key (- 1), Key 97, Key (- 1)] =
     Some (Inr [(0, [10]), (1, [11]), (2, [12])]) \<and>
   map fst [(0 :: int, [10 :: nat]), (1, [11]), (2, [12])] = map int [0..<length [10, 11, 12 :: nat]]"
proof -
  have a: "\<forall>f\<in>set [10, 11, 12 :: nat]. \<exists>ds. (Inr [f] :: unit + nat list) = Inr ds"
    by simp
  have b: "\<forall>ev\<in>set [Key (- 1), Key 97, Key (- 1)].
      \<exists>raw. ev = Key raw \<and> raw AND 255 \<noteq> KEY_QUIT \<and> raw AND 255 \<noteq> KEY_PAUSE"
    by (simp add: KEY_QUIT_def KEY_PAUSE_def)
  have c: "length [10, 11, 12 :: nat] \<le> length [Key (- 1), Key 97, Key (- 1)]"
    by simp
  from full_run_frame_indices [of "[10, 11, 12 :: nat]" "\<lambda>f. Inr [f] :: unit + nat list", OF a b c, of False True]
  show ?thesis
    by (simp add: process_video_loop_def initial_state_def before_key_def read_frame_def
        process_frame_def handle_key_def KEY_QUIT_def KEY_PAUSE_def upt_rec)
qed

section \<open>Opening a source\<close>

subsection \<open>The example worlds and strings, evaluated\<close>

lemma world_simps:
  "Path_str closed_world = (\<lambda>s. s)"
  "is_absolute closed_world = (\<lambda>s. take 1 s = ''/'')"
  "project_root_join closed_world = (\<lambda>s. ''/project/'' @ s)"
  "path_exists closed_world = (\<lambda>p. False)"
  "cv_isOpened closed_world = (\<lambda>a. False)"
  "Path_str open_world = (\<lambda>s. s)"
  "is_absolute open_world = (\<lambda>s. take 1 s = ''/'')"
  "project_root_join open_world = (\<lambda>s. ''/project/'' @ s)"
  "path_exists open_world = (\<lambda>p. True)"
  "cv_isOpened open_world = (\<lambda>a. True)"
  by (simp_all add: closed_world_def open_world_def)

lemma string_evals:
  "\<not> isdigit ''clip.mp4''"
  "\<not> isdigit ''rtsp://cam''"
  "\<not> isdigit '' HTTP://cam''"
  "isdigit ''7''"
  "int_of_digits ''7'' = 7"
  "\<not> startswith (strip (lower ''clip.mp4'')) STREAM_URL_PREFIXES"
  "startswith (strip (lower ''rtsp://cam'')) STREAM_URL_PREFIXES"
  "startswith (strip (lower '' HTTP://cam'')) STREAM_URL_PREFIXES"
  "\<not> startswith (lower '' HTTP://cam'') STREAM_URL_PREFIXES"
  by (simp_all add: isdigit_def int_of_digits_def startswith_def strip_def lower_def
      lower_char_def isspace_def STREAM_URL_PREFIXES_def)

subsection \<open>How opening fails\<close>




subsection \<open>Classification of the input string\<close>

text \<open>
  Claim C5, as stated, against the source. The spec classifies by the lower-cased prefix
  of the string itself. The source tests \<^verbatim>\<open>video_path.lower().strip()\<close>: white space
  around the string is removed before the prefix test. The string \<^verbatim>\<open>" HTTP://cam"\<close>
  does not begin with a scheme, so the spec's rule makes it a file; the constructor
  opens it as a stream.
\<close>

theorem spec_classify_counterexample:
  "spec_classify '' HTTP://cam'' = File \<and>
   VideoCapture_init closed_world (PyStr '' HTTP://cam'') =
     ([StreamURL '' HTTP://cam''],
      Inl (StreamConnectionError (Could_not_connect_to_video_stream (PyStr '' HTTP://cam'')))) \<and>
   map kind_of (fst (VideoCapture_init closed_world (PyStr '' HTTP://cam''))) = [Stream]"
  by (simp add: spec_classify_def VideoCapture_init_def choose_source_def string_evals
      world_simps)

text \<open>
  Claim C5, amended. For every string, what the constructor opens is decided by the form
  of the string alone: a non-empty string of digits is opened as the camera of that
  index; otherwise a string whose lower-cased and stripped form starts with one of
  \<^verbatim>\<open>http://\<close>, \<^verbatim>\<open>https://\<close>, \<^verbatim>\<open>rtsp://\<close>, \<^verbatim>\<open>rtmp://\<close>, \<^verbatim>\<open>udp://\<close> is opened as a
  stream; every other string is a file, resolved under the project root when not
  absolute, and opened only when it exists. The flags of the object agree, and for a
  camera or a stream the result does not depend on which files exist.
\<close>

theorem classification_by_form:
  "(isdigit s \<longrightarrow>
      fst (VideoCapture_init E (PyStr s)) = [CameraIndex (int_of_digits s)]) \<and>
   (\<not> isdigit s \<and> startswith (strip (lower s)) STREAM_URL_PREFIXES \<longrightarrow>
      fst (VideoCapture_init E (PyStr s)) = [StreamURL s]) \<and>
   (\<not> isdigit s \<and> \<not> startswith (strip (lower s)) STREAM_URL_PREFIXES \<longrightarrow>
      fst (VideoCapture_init E (PyStr s)) =
        (if path_exists E (video_path_obj E s) then [FileName (video_path_obj E s)] else [])) \<and>
   (\<forall>vc. snd (VideoCapture_init E (PyStr s)) = Inr vc \<longrightarrow>
      is_camera vc = isdigit s \<and>
      is_stream vc = (\<not> isdigit s \<and> startswith (strip (lower s)) STREAM_URL_PREFIXES) \<and>
      kind_of (cap vc) =
        (if isdigit s then Camera
         else if startswith (strip (lower s)) STREAM_URL_PREFIXES then Stream else File)) \<and>
   (isdigit s \<or> startswith (strip (lower s)) STREAM_URL_PREFIXES \<longrightarrow>
      VideoCapture_init (E\<lparr>path_exists := ex\<rparr>) (PyStr s) = VideoCapture_init E (PyStr s))"
  by (auto simp: VideoCapture_init_def choose_source_def Let_def split: if_splits)

theorem classification_by_form_witness:
  "isdigit ''7'' \<and>
   fst (VideoCapture_init open_world (PyStr ''7'')) = [CameraIndex 7] \<and>
   fst (VideoCapture_init open_world (PyStr '' HTTP://cam'')) = [StreamURL '' HTTP://cam''] \<and>
   fst (VideoCapture_init open_world (PyStr ''clip.mp4'')) = [FileName ''/project/clip.mp4''] \<and>
   fst (VideoCapture_init closed_world (PyStr ''clip.mp4'')) = [] \<and>
   VideoCapture_init (open_world\<lparr>path_exists := (\<lambda>p. False)\<rparr>) (PyStr '' HTTP://cam'') =
     VideoCapture_init open_world (PyStr '' HTTP://cam'')"
proof -
  have p: "video_path_obj open_world ''clip.mp4'' = ''/project/clip.mp4''"
    "video_path_obj closed_world ''clip.mp4'' = ''/project/clip.mp4''"
    by (simp_all add: video_path_obj_def world_simps)
  from classification_by_form [of "''7''" open_world "\<lambda>p. False"]
    classification_by_form [of "'' HTTP://cam''" open_world "\<lambda>p. False"]
    classification_by_form [of "''clip.mp4''" open_world "\<lambda>p. False"]
    classification_by_form [of "''clip.mp4''" closed_world "\<lambda>p. False"]
    p
  show ?thesis
    by (simp add: string_evals world_simps)
qed

section \<open>The decoder\<close>

subsection \<open>The first loop, row by row\<close>

lemma argmax_scan_cases:
  "((\<forall>v\<in>set vs. v \<le> best) \<and> argmax_scan vs i best best_i = best_i) \<or>
   (\<exists>j<length vs. argmax_scan vs i best best_i = i + j \<and> best < vs ! j \<and>
        (\<forall>v\<in>set vs. v \<le> vs ! j))"
proof (induction vs arbitrary: i best best_i)
  case Nil
  show ?case by simp
next
  case (Cons v vs)
  show ?case
  proof (cases "best < v")
    case True
    from Cons.IH [of v "Suc i" i] show ?thesis
    proof
      assume "(\<forall>u\<in>set vs. u \<le> v) \<and> argmax_scan vs (Suc i) v i = i"
      with True have "0 < length (v # vs) \<and> argmax_scan (v # vs) i best best_i = i + 0 \<and>
          best < (v # vs) ! 0 \<and> (\<forall>u\<in>set (v # vs). u \<le> (v # vs) ! 0)"
        by simp
      then show ?thesis by blast
    next
      assume "\<exists>j<length vs. argmax_scan vs (Suc i) v i = Suc i + j \<and> v < vs ! j \<and>
          (\<forall>u\<in>set vs. u \<le> vs ! j)"
      then obtain j where j: "j < length vs" "argmax_scan vs (Suc i) v i = Suc i + j"
        "v < vs ! j" "\<forall>u\<in>set vs. u \<le> vs ! j"
        by blast
      with True have "Suc j < length (v # vs) \<and>
          argmax_scan (v # vs) i best best_i = i + Suc j \<and>
          best < (v # vs) ! Suc j \<and> (\<forall>u\<in>set (v # vs). u \<le> (v # vs) ! Suc j)"
        by auto
      then show ?thesis by blast
    qed
  next
    case False
    from Cons.IH [of best "Suc i" best_i] show ?thesis
    proof
      assume "(\<forall>u\<in>set vs. u \<le> best) \<and> argmax_scan vs (Suc i) best best_i = best_i"
      with False show ?thesis by auto
    next
      assume "\<exists>j<length vs. argmax_scan vs (Suc i) best best_i = Suc i + j \<and>
          best < vs ! j \<and> (\<forall>u\<in>set vs. u \<le> vs ! j)"
      then obtain j where j: "j < length vs"
        "argmax_scan vs (Suc i) best best_i = Suc i + j"
        "best < vs ! j" "\<forall>u\<in>set vs. u \<le> vs ! j"
        by blast
      with False have "Suc j < length (v # vs) \<and>
          argmax_scan (v # vs) i best best_i = i + Suc j \<and>
          best < (v # vs) ! Suc j \<and> (\<forall>u\<in>set (v # vs). u \<le> (v # vs) ! Suc j)"
        by auto
      then show ?thesis by blast
    qed
  qed
qed

lemma argmax_is_maximum:
  assumes "scores \<noteq> []"
  shows "\<exists>k. argmax scores = Inr k \<and> k < length scores \<and>
           (\<forall>v\<in>set scores. v \<le> scores ! k)"
proof -
  from assms obtain v vs where s: "scores = v # vs"
    by (cases scores) auto
  from argmax_scan_cases [of vs v 1 0] show ?thesis
  proof
    assume "(\<forall>u\<in>set vs. u \<le> v) \<and> argmax_scan vs 1 v 0 = 0"
    then show ?thesis by (simp add: s argmax_def)
  next
    assume "\<exists>j<length vs. argmax_scan vs 1 v 0 = 1 + j \<and> v < vs ! j \<and>
        (\<forall>u\<in>set vs. u \<le> vs ! j)"
    then show ?thesis by (auto simp: s argmax_def)
  qed
qed

lemma row_argmax:
  assumes "5 < length output"
  shows "argmax (drop 5 output) = Inr (row_classID output)"
    and "row_classID output < length (drop 5 output)"
    and "\<forall>v\<in>set (drop 5 output). v \<le> row_confidence output"
proof -
  from assms have "drop 5 output \<noteq> []" by simp
  from argmax_is_maximum [OF this] obtain k where
    k: "argmax (drop 5 output) = Inr k" "k < length (drop 5 output)"
       "\<forall>v\<in>set (drop 5 output). v \<le> drop 5 output ! k"
    by blast
  then have "row_classID output = k" by (simp add: row_classID_def)
  with k show "argmax (drop 5 output) = Inr (row_classID output)"
    and "row_classID output < length (drop 5 output)"
    and "\<forall>v\<in>set (drop 5 output). v \<le> row_confidence output"
    by (simp_all add: row_confidence_def)
qed

lemma take_4:
  assumes "4 \<le> length xs"
  shows "take 4 xs = [xs ! 0, xs ! 1, xs ! 2, xs ! 3]"
proof -
  from assms obtain a b c d rest where "xs = a # b # c # d # rest"
    by (cases xs; cases "tl xs"; cases "tl (tl xs)"; cases "tl (tl (tl xs))") auto
  then show ?thesis by simp
qed

lemma rows_step:
  assumes "5 < length output"
  shows "get_coordinates_rows P conf (output # rest) (boxes, confidences, classIDs) =
     (if conf < row_confidence output
      then get_coordinates_rows P conf rest
             (boxes @ [row_box P output], confidences @ [row_confidence output],
              classIDs @ [row_classID output])
      else get_coordinates_rows P conf rest (boxes, confidences, classIDs))"
proof -
  from assms have t: "take 4 output = [output ! 0, output ! 1, output ! 2, output ! 3]"
    by (intro take_4) simp
  show ?thesis
    using row_argmax(1) [OF assms] t
    by (simp add: Let_def row_box_def row_confidence_def)
qed

lemma rows_well_formed:
  assumes "\<forall>output\<in>set outputs. 5 < length output"
  shows "get_coordinates_rows P conf outputs (boxes, confidences, classIDs) =
     Inr (boxes @ map (row_box P) (filter (\<lambda>output. conf < row_confidence output) outputs),
          confidences @ map row_confidence (filter (\<lambda>output. conf < row_confidence output) outputs),
          classIDs @ map row_classID (filter (\<lambda>output. conf < row_confidence output) outputs))"
  using assms
proof (induction outputs arbitrary: boxes confidences classIDs)
  case Nil
  show ?case by simp
next
  case (Cons row rest)
  then have len: "5 < length row" and rest: "\<forall>output\<in>set rest. 5 < length output"
    by simp_all
  show ?case
    by (simp only: rows_step [OF len] Cons.IH [OF rest]) simp
qed

lemma rows_short_row:
  assumes "\<exists>output\<in>set outputs. length output \<le> 5"
  shows "get_coordinates_rows P conf outputs (boxes, confidences, classIDs) =
     Inl (ValueError Argmax_of_an_empty_sequence)"
  using assms
proof (induction outputs arbitrary: boxes confidences classIDs)
  case Nil
  then show ?case by simp
next
  case (Cons row rest)
  show ?case
  proof (cases "5 < length row")
    case True
    with Cons.prems have "\<exists>output\<in>set rest. length output \<le> 5" by auto
    from Cons.IH [OF this] show ?thesis
      by (simp only: rows_step [OF True]) simp
  next
    case False
    then have "drop 5 row = []" by simp
    then show ?thesis by (simp add: argmax_def)
  qed
qed

subsection \<open>Indices from NMS and the second loop\<close>

lemma greedy_nms_subset: "set (greedy_nms box_of t cs) \<subseteq> set cs"
  by (induction box_of t cs rule: greedy_nms.induct) auto

lemma NMSBoxes_in_range:
  assumes "i \<in> set (NMSBoxes boxes scores score_threshold nms_threshold)"
  shows "i < length boxes \<and> i < length scores"
proof -
  from assms obtain c where
    c: "c \<in> set (greedy_nms (\<lambda>c. fst (snd c)) nms_threshold
          (sort_key (\<lambda>c. - snd (snd c)) (zip [0..<length boxes] (zip boxes scores))))"
      "i = fst c"
    by (auto simp: NMSBoxes_def)
  from c(1) greedy_nms_subset
  have "c \<in> set (zip [0..<length boxes] (zip boxes scores))"
    by fastforce
  then have "fst c \<in> set [0..<length boxes]" "snd c \<in> set (zip boxes scores)"
    by (metis prod.collapse set_zip_leftD, metis prod.collapse set_zip_rightD)
  then obtain j where "j < length (zip [0..<length boxes] (zip boxes scores))"
    "c = zip [0..<length boxes] (zip boxes scores) ! j"
    using \<open>c \<in> set (zip [0..<length boxes] (zip boxes scores))\<close>
    by (metis in_set_conv_nth)
  then show ?thesis using c(2) by simp
qed

lemma NMSBoxes_Nil: "NMSBoxes [] [] score_threshold nms_threshold = []"
  by (simp add: NMSBoxes_def)

lemma format_succeeds:
  assumes "\<forall>i\<in>set indices. i < length boxes \<and> i < length classIDs \<and> i < length confidences \<and>
             proc_classes P (int (classIDs ! i)) \<noteq> None"
  shows "\<exists>ds. get_coordinates_format P boxes confidences classIDs indices = Inr ds"
  using assms
  by (induction indices) (auto split: prod.splits)

lemma format_content:
  assumes "get_coordinates_format P boxes confidences classIDs indices = Inr ds"
    and "d \<in> set ds"
  shows "\<exists>i\<in>set indices. i < length boxes \<and> i < length classIDs \<and> i < length confidences \<and>
           (det_x d, det_y d, det_w d, det_h d) = boxes ! i \<and>
           det_confidence d = confidences ! i \<and> det_class d = int (classIDs ! i) \<and>
           proc_classes P (det_class d) = Some (det_class_name d)"
  using assms
proof (induction indices arbitrary: ds)
  case Nil
  then show ?case by simp
next
  case (Cons i indices)
  then show ?case
    by (fastforce split: if_splits prod.splits option.splits sum.splits)
qed

lemma get_coordinates_well_formed:
  assumes "get_coordinates P outputs conf = Inr ds"
  shows "\<forall>row\<in>set outputs. 5 < length row"
proof (rule ccontr)
  assume "\<not> (\<forall>row\<in>set outputs. 5 < length row)"
  then have "\<exists>row\<in>set outputs. length row \<le> 5" by (simp add: not_less)
  from rows_short_row [OF this] assms show False
    by (simp add: get_coordinates_def)
qed

lemma get_coordinates_detection:
  assumes "get_coordinates P outputs conf = Inr ds" and "d \<in> set ds"
  shows "\<exists>row\<in>set outputs. conf < row_confidence row \<and>
           (det_x d, det_y d, det_w d, det_h d) = row_box P row \<and>
           det_confidence d = row_confidence row \<and>
           det_class d = int (row_classID row) \<and>
           proc_classes P (det_class d) = Some (det_class_name d)"
proof -
  let ?S = "filter (\<lambda>row. conf < row_confidence row) outputs"
  have rows: "get_coordinates_rows P conf outputs ([], [], []) =
      Inr (map (row_box P) ?S, map row_confidence ?S, map row_classID ?S)"
    using rows_well_formed [OF get_coordinates_well_formed [OF assms(1)], of P conf "[]" "[]" "[]"]
    by simp
  let ?ix = "NMSBoxes (map (row_box P) ?S) (map row_confidence ?S) conf
      (conf - NMS_THRESHOLD_OFFSET)"
  from assms rows have
    "get_coordinates_format P (map (row_box P) ?S) (map row_confidence ?S)
       (map row_classID ?S) ?ix = Inr ds"
    by (auto simp: get_coordinates_def Let_def split: if_splits)
  from format_content [OF this assms(2)] obtain i where
    i: "i < length ?S"
      "(det_x d, det_y d, det_w d, det_h d) = map (row_box P) ?S ! i"
      "det_confidence d = map row_confidence ?S ! i"
      "det_class d = int (map row_classID ?S ! i)"
      "proc_classes P (det_class d) = Some (det_class_name d)"
    by auto
  have "\<forall>row\<in>set ?S. row \<in> set outputs \<and> conf < row_confidence row" by simp
  moreover have "?S ! i \<in> set ?S" using i(1) by (rule nth_mem)
  ultimately have "?S ! i \<in> set outputs" "conf < row_confidence (?S ! i)" by blast+
  with i show ?thesis by auto
qed

lemma get_coordinates_no_candidates:
  assumes "\<forall>row\<in>set outputs. 5 < length row"
    and "filter (\<lambda>row. conf < row_confidence row) outputs = []"
  shows "get_coordinates P outputs conf = Inr []"
  using rows_well_formed [OF assms(1), of P conf "[]" "[]" "[]"] assms(2)
  by (simp add: get_coordinates_def NMSBoxes_Nil)

lemma get_coordinates_succeeds:
  assumes "\<forall>row\<in>set outputs. 5 < length row"
    and "\<forall>row\<in>set outputs. conf < row_confidence row \<longrightarrow>
           proc_classes P (int (row_classID row)) \<noteq> None"
  shows "\<exists>ds. get_coordinates P outputs conf = Inr ds"
proof -
  let ?S = "filter (\<lambda>row. conf < row_confidence row) outputs"
  have rows: "get_coordinates_rows P conf outputs ([], [], []) =
      Inr (map (row_box P) ?S, map row_confidence ?S, map row_classID ?S)"
    using rows_well_formed [OF assms(1), of P conf "[]" "[]" "[]"] by simp
  let ?ix = "NMSBoxes (map (row_box P) ?S) (map row_confidence ?S) conf
      (conf - NMS_THRESHOLD_OFFSET)"
  have "\<forall>i\<in>set ?ix. i < length (map (row_box P) ?S) \<and> i < length (map row_classID ?S) \<and>
      i < length (map row_confidence ?S) \<and>
      proc_classes P (int (map row_classID ?S ! i)) \<noteq> None"
  proof
    fix i assume "i \<in> set ?ix"
    from NMSBoxes_in_range [OF this] have i: "i < length ?S" by simp
    have "\<forall>row\<in>set ?S. row \<in> set outputs \<and> conf < row_confidence row" by simp
    moreover have "?S ! i \<in> set ?S" using i by (rule nth_mem)
    ultimately have "?S ! i \<in> set outputs" "conf < row_confidence (?S ! i)" by blast+
    with assms(2) have "proc_classes P (int (row_classID (?S ! i))) \<noteq> None" by blast
    with i show "i < length (map (row_box P) ?S) \<and> i < length (map row_classID ?S) \<and>
      i < length (map row_confidence ?S) \<and>
      proc_classes P (int (map row_classID ?S ! i)) \<noteq> None"
      by simp
  qed
  from format_succeeds [OF this] obtain ds where
    "get_coordinates_format P (map (row_box P) ?S) (map row_confidence ?S)
       (map row_classID ?S) ?ix = Inr ds"
    by blast
  with rows show ?thesis
    by (auto simp: get_coordinates_def Let_def)
qed

lemma format_fails:
  assumes "\<forall>i\<in>set indices. i < length boxes \<and> i < length classIDs \<and> i < length confidences"
    and "get_coordinates_format P boxes confidences classIDs indices = Inl e"
  shows "\<exists>i\<in>set indices. e = KeyError (int (classIDs ! i)) \<and>
           proc_classes P (int (classIDs ! i)) = None"
  using assms
proof (induction indices)
  case Nil
  then show ?case by simp
next
  case (Cons i indices)
  then show ?case
    by (auto split: prod.splits option.splits sum.splits)
qed

lemmas decoder_eval =
  get_coordinates_def argmax_def py_int_def floordiv_def NMSBoxes_def iou_def
  NMS_THRESHOLD_OFFSET_def example_processor_simps Let_def

subsection \<open>The confidence filter\<close>

text \<open>
  Claim C7. For every output row (with a score vector, that is, more than five entries)
  the decoder takes the class index as the argmax of the scores and the confidence as the
  score at that index, a maximum of the vector. The row becomes a candidate exactly when
  its confidence is strictly above the threshold: the three lists the first loop builds
  are the boxes, confidences and class indices of the rows that pass the strict test, in
  order. Every detection the decoder returns has a confidence above the threshold, and
  when no row passes the decoder returns the empty list, not an error.
\<close>

theorem decoder_confidence_filter:
  assumes "\<forall>row\<in>set outputs. 5 < length row"
  shows
    "(\<forall>row\<in>set outputs.
        argmax (drop 5 row) = Inr (row_classID row) \<and>
        row_classID row < length (drop 5 row) \<and>
        row_confidence row = drop 5 row ! row_classID row \<and>
        (\<forall>v\<in>set (drop 5 row). v \<le> row_confidence row)) \<and>
     get_coordinates_rows P conf outputs ([], [], []) =
       Inr (map (row_box P) (filter (\<lambda>row. conf < row_confidence row) outputs),
            map row_confidence (filter (\<lambda>row. conf < row_confidence row) outputs),
            map row_classID (filter (\<lambda>row. conf < row_confidence row) outputs)) \<and>
     (\<forall>ds. get_coordinates P outputs conf = Inr ds \<longrightarrow>
        (\<forall>d\<in>set ds. conf < det_confidence d)) \<and>
     ((\<forall>row\<in>set outputs. row_confidence row \<le> conf) \<longrightarrow>
        get_coordinates P outputs conf = Inr [])"
proof (intro conjI)
  show "\<forall>row\<in>set outputs.
        argmax (drop 5 row) = Inr (row_classID row) \<and>
        row_classID row < length (drop 5 row) \<and>
        row_confidence row = drop 5 row ! row_classID row \<and>
        (\<forall>v\<in>set (drop 5 row). v \<le> row_confidence row)"
  proof
    fix row assume "row \<in> set outputs"
    with assms have len: "5 < length row" by blast
    from row_argmax [OF len] show "argmax (drop 5 row) = Inr (row_classID row) \<and>
        row_classID row < length (drop 5 row) \<and>
        row_confidence row = drop 5 row ! row_classID row \<and>
        (\<forall>v\<in>set (drop 5 row). v \<le> row_confidence row)"
      unfolding row_confidence_def by blast
  qed
  show "get_coordinates_rows P conf outputs ([], [], []) =
       Inr (map (row_box P) (filter (\<lambda>row. conf < row_confidence row) outputs),
            map row_confidence (filter (\<lambda>row. conf < row_confidence row) outputs),
            map row_classID (filter (\<lambda>row. conf < row_confidence row) outputs))"
    using rows_well_formed [OF assms, of P conf "[]" "[]" "[]"] by simp
  show "\<forall>ds. get_coordinates P outputs conf = Inr ds \<longrightarrow>
        (\<forall>d\<in>set ds. conf < det_confidence d)"
    using get_coordinates_detection by fastforce
  show "(\<forall>row\<in>set outputs. row_confidence row \<le> conf) \<longrightarrow>
        get_coordinates P outputs conf = Inr []"
  proof
    assume "\<forall>row\<in>set outputs. row_confidence row \<le> conf"
    then have "filter (\<lambda>row. conf < row_confidence row) outputs = []"
      by (auto simp: filter_empty_conv)
    from get_coordinates_no_candidates [OF assms this] show "get_coordinates P outputs conf = Inr []" .
  qed
qed

theorem decoder_confidence_filter_witness:
  "get_coordinates example_processor
     [[1/2, 1/2, 1/4, 1/4, 1, 3/10, 9/10, 2/10], [1/10, 1/10, 1/10, 1/10, 1, 4/10, 1/10, 2/10]]
     (1/2) =
     Inr [\<lparr>det_x = 8, det_y = 8, det_w = 5, det_h = 5, det_class = 1,
           det_class_name = ''bus'', det_confidence = 9/10\<rparr>] \<and>
   (1/2 :: real) < 9/10 \<and>
   row_confidence [1/10, 1/10, 1/10, 1/10, 1, 4/10, 1/10, 2/10] = 4/10 \<and>
   get_coordinates example_processor [[1/10, 1/10, 1/10, 1/10, 1, 4/10, 1/10, 2/10]] (1/2) =
     Inr []"
proof -
  have wf: "\<forall>row\<in>set [[1/2, 1/2, 1/4, 1/4, 1, 3/10, 9/10, 2/10],
      [1/10, 1/10, 1/10, 1/10, 1, 4/10, 1/10, 2/10 :: real]]. 5 < length row"
    by simp
  have wf2: "\<forall>row\<in>set [[1/10, 1/10, 1/10, 1/10, 1, 4/10, 1/10, 2/10 :: real]]. 5 < length row"
    by simp
  have c: "row_confidence [1/10, 1/10, 1/10, 1/10, 1, 4/10, 1/10, 2/10] = 4/10"
    by (simp add: row_confidence_def row_classID_def argmax_def)
  have e: "get_coordinates example_processor
     [[1/2, 1/2, 1/4, 1/4, 1, 3/10, 9/10, 2/10], [1/10, 1/10, 1/10, 1/10, 1, 4/10, 1/10, 2/10]]
     (1/2) =
     Inr [\<lparr>det_x = 8, det_y = 8, det_w = 5, det_h = 5, det_class = 1,
           det_class_name = ''bus'', det_confidence = 9/10\<rparr>]"
    by (simp add: decoder_eval)
  from decoder_confidence_filter [OF wf, of example_processor "1/2"] e
  have "(1/2 :: real) < 9/10" by simp
  moreover from decoder_confidence_filter [OF wf2, of example_processor "1/2"] c
  have "get_coordinates example_processor [[1/10, 1/10, 1/10, 1/10, 1, 4/10, 1/10, 2/10]] (1/2) =
     Inr []" by simp
  ultimately show ?thesis using e c by simp
qed

subsection \<open>The box of a row\<close>

text \<open>
  Claim C3, as stated, against the source. The spec takes the corner as the centre minus
  half the extent, truncated. The source writes \<^verbatim>\<open>int(x - w//2)\<close>: half the extent is
  floored first. On a 20 by 20 frame the row with centre 0.5 and extent 0.25 has centre
  10 and extent 5; the source yields the corner 10 - 2 = 8 where the spec's formula
  yields the truncation of 7.5, which is 7.
\<close>

theorem spec_box_counterexample:
  "get_coordinates example_processor [[1/2, 1/2, 1/4, 1/4, 1, 9/10, 1/10, 2/10]] (1/2) =
     Inr [\<lparr>det_x = 8, det_y = 8, det_w = 5, det_h = 5, det_class = 0,
           det_class_name = ''car'', det_confidence = 9/10\<rparr>] \<and>
   proc_W example_processor = 20 \<and> proc_H example_processor = 20 \<and>
   spec_box 20 20 [1/2, 1/2, 1/4, 1/4, 1, 9/10, 1/10, 2/10] = (7, 7, 5, 5)"
  by (simp add: decoder_eval spec_box_def)

text \<open>
  Claim C3, amended. For a processor built for the frame size of the capture, the box
  of every row that passes the confidence test is the row's centre and extent scaled by
  the width and height of the frame: the corner is the truncation toward zero of the
  centre minus the floor of half the extent, and the width and height are the truncated
  extents. This holds of the candidate boxes the first loop collects and of every
  detection the decoder returns.
\<close>

theorem decoder_box_of_row:
  "((\<forall>row\<in>set outputs. 5 < length row) \<longrightarrow>
      (\<exists>confidences classIDs.
         get_coordinates_rows (ImageProcessor_init random_colors (get_window_size vc) names)
           conf outputs ([], [], []) =
         Inr (map (\<lambda>row.
                (py_int (row ! 0 * real_of_int (vc_w vc)
                         - real_of_int \<lfloor>row ! 2 * real_of_int (vc_w vc) / 2\<rfloor>),
                 py_int (row ! 1 * real_of_int (vc_h vc)
                         - real_of_int \<lfloor>row ! 3 * real_of_int (vc_h vc) / 2\<rfloor>),
                 py_int (row ! 2 * real_of_int (vc_w vc)),
                 py_int (row ! 3 * real_of_int (vc_h vc))))
                (filter (\<lambda>row. conf < row_confidence row) outputs),
              confidences, classIDs))) \<and>
   (get_coordinates (ImageProcessor_init random_colors (get_window_size vc) names) outputs conf
      = Inr ds \<longrightarrow>
    (\<forall>d\<in>set ds. \<exists>row\<in>set outputs. conf < row_confidence row \<and>
       det_x d = py_int (row ! 0 * real_of_int (vc_w vc)
                         - real_of_int \<lfloor>row ! 2 * real_of_int (vc_w vc) / 2\<rfloor>) \<and>
       det_y d = py_int (row ! 1 * real_of_int (vc_h vc)
                         - real_of_int \<lfloor>row ! 3 * real_of_int (vc_h vc) / 2\<rfloor>) \<and>
       det_w d = py_int (row ! 2 * real_of_int (vc_w vc)) \<and>
       det_h d = py_int (row ! 3 * real_of_int (vc_h vc))))"
proof -
  define P where "P = ImageProcessor_init random_colors (get_window_size vc) names"
  have box: "row_box P row =
      (py_int (row ! 0 * real_of_int (vc_w vc)
               - real_of_int \<lfloor>row ! 2 * real_of_int (vc_w vc) / 2\<rfloor>),
       py_int (row ! 1 * real_of_int (vc_h vc)
               - real_of_int \<lfloor>row ! 3 * real_of_int (vc_h vc) / 2\<rfloor>),
       py_int (row ! 2 * real_of_int (vc_w vc)),
       py_int (row ! 3 * real_of_int (vc_h vc)))" for row
    by (simp add: P_def row_box_def ImageProcessor_init_def get_window_size_def floordiv_def
        Let_def)
  have first: "\<exists>confidences classIDs.
         get_coordinates_rows P conf outputs ([], [], []) =
         Inr (map (\<lambda>row.
                (py_int (row ! 0 * real_of_int (vc_w vc)
                         - real_of_int \<lfloor>row ! 2 * real_of_int (vc_w vc) / 2\<rfloor>),
                 py_int (row ! 1 * real_of_int (vc_h vc)
                         - real_of_int \<lfloor>row ! 3 * real_of_int (vc_h vc) / 2\<rfloor>),
                 py_int (row ! 2 * real_of_int (vc_w vc)),
                 py_int (row ! 3 * real_of_int (vc_h vc))))
                (filter (\<lambda>row. conf < row_confidence row) outputs),
              confidences, classIDs)"
    if wf: "\<forall>row\<in>set outputs. 5 < length row"
  proof -
    have "map (row_box P) (filter (\<lambda>row. conf < row_confidence row) outputs) =
        map (\<lambda>row.
                (py_int (row ! 0 * real_of_int (vc_w vc)
                         - real_of_int \<lfloor>row ! 2 * real_of_int (vc_w vc) / 2\<rfloor>),
                 py_int (row ! 1 * real_of_int (vc_h vc)
                         - real_of_int \<lfloor>row ! 3 * real_of_int (vc_h vc) / 2\<rfloor>),
                 py_int (row ! 2 * real_of_int (vc_w vc)),
                 py_int (row ! 3 * real_of_int (vc_h vc))))
            (filter (\<lambda>row. conf < row_confidence row) outputs)"
      by (rule map_cong [OF refl]) (rule box)
    with rows_well_formed [OF wf, of P conf "[]" "[]" "[]"] show ?thesis
      by simp
  qed
  have second: "\<exists>row\<in>set outputs. conf < row_confidence row \<and>
       det_x d = py_int (row ! 0 * real_of_int (vc_w vc)
                         - real_of_int \<lfloor>row ! 2 * real_of_int (vc_w vc) / 2\<rfloor>) \<and>
       det_y d = py_int (row ! 1 * real_of_int (vc_h vc)
                         - real_of_int \<lfloor>row ! 3 * real_of_int (vc_h vc) / 2\<rfloor>) \<and>
       det_w d = py_int (row ! 2 * real_of_int (vc_w vc)) \<and>
       det_h d = py_int (row ! 3 * real_of_int (vc_h vc))"
    if r: "get_coordinates P outputs conf = Inr ds" and d: "d \<in> set ds" for d
  proof -
    from get_coordinates_detection [OF r d] obtain row where
      row: "row \<in> set outputs" "conf < row_confidence row"
        "(det_x d, det_y d, det_w d, det_h d) = row_box P row"
      by blast
    from row(3) have "det_x d = py_int (row ! 0 * real_of_int (vc_w vc)
                         - real_of_int \<lfloor>row ! 2 * real_of_int (vc_w vc) / 2\<rfloor>) \<and>
       det_y d = py_int (row ! 1 * real_of_int (vc_h vc)
                         - real_of_int \<lfloor>row ! 3 * real_of_int (vc_h vc) / 2\<rfloor>) \<and>
       det_w d = py_int (row ! 2 * real_of_int (vc_w vc)) \<and>
       det_h d = py_int (row ! 3 * real_of_int (vc_h vc))"
      by (simp only: box prod.inject)
    with row(1,2) show ?thesis by blast
  qed
  from first second show ?thesis unfolding P_def by blast
qed

theorem decoder_box_of_row_witness:
  "get_coordinates
     (ImageProcessor_init (\<lambda>n. [])
        (get_window_size \<lparr>cap = CameraIndex 0, is_camera = True, is_stream = False,
           vc_w = 20, vc_h = 20, vc_fps = 30, vc_frame_count = 0\<rparr>)
        [''car'', ''bus'', ''dog''])
     [[1/2, 1/2, 1/4, 1/4, 1, 9/10, 1/10, 2/10]] (1/2) =
     Inr [\<lparr>det_x = 8, det_y = 8, det_w = 5, det_h = 5, det_class = 0,
           det_class_name = ''car'', det_confidence = 9/10\<rparr>] \<and>
   py_int (1/2 * real_of_int 20 - real_of_int \<lfloor>1/4 * real_of_int 20 / 2\<rfloor>) = 8 \<and>
   py_int (1/4 * real_of_int 20) = 5"
proof -
  have p: "ImageProcessor_init (\<lambda>n. [])
        (get_window_size \<lparr>cap = CameraIndex 0, is_camera = True, is_stream = False,
           vc_w = 20, vc_h = 20, vc_fps = 30, vc_frame_count = 0\<rparr>)
        [''car'', ''bus'', ''dog''] = example_processor"
    by (simp add: example_processor_def get_window_size_def)
  have e: "get_coordinates
     (ImageProcessor_init (\<lambda>n. [])
        (get_window_size \<lparr>cap = CameraIndex 0, is_camera = True, is_stream = False,
           vc_w = 20, vc_h = 20, vc_fps = 30, vc_frame_count = 0\<rparr>)
        [''car'', ''bus'', ''dog''])
     [[1/2, 1/2, 1/4, 1/4, 1, 9/10, 1/10, 2/10]] (1/2) =
     Inr [\<lparr>det_x = 8, det_y = 8, det_w = 5, det_h = 5, det_class = 0,
           det_class_name = ''car'', det_confidence = 9/10\<rparr>]"
    unfolding p by (simp add: decoder_eval)
  from decoder_box_of_row [where random_colors = "\<lambda>n. []"
      and vc = "\<lparr>cap = CameraIndex 0, is_camera = True, is_stream = False,
           vc_w = 20, vc_h = 20, vc_fps = 30, vc_frame_count = 0\<rparr>"
      and names = "[''car'', ''bus'', ''dog'']"
      and outputs = "[[1/2, 1/2, 1/4, 1/4, 1, 9/10, 1/10, 2/10]]" and conf = "1/2"
      and ds = "[\<lparr>det_x = 8, det_y = 8, det_w = 5, det_h = 5, det_class = 0,
           det_class_name = ''car'', det_confidence = 9/10\<rparr>]"] e
  have "8 = py_int (1/2 * real_of_int 20 - real_of_int \<lfloor>1/4 * real_of_int 20 / 2\<rfloor>) \<and>
        5 = py_int (1/4 * real_of_int 20)"
    by simp
  with e show ?thesis by simp
qed

subsection \<open>Rows of the wrong width\<close>

text \<open>
  Claim C2, as stated, against the source. The decoder is meant to reject an output
  whose rows have the wrong width before it produces a box. The source has no such check
  and no such exception. With a catalog of three classes a row has eight entries; a row
  of seven is decoded like any other and a box is returned.
\<close>

theorem wrong_width_counterexample:
  "dom (proc_classes example_processor) = {0, 1, 2} \<and>
   length [1/2, 1/2, 1/4, 1/4, 1, 3/10, 9/10 :: real] = 7 \<and>
   get_coordinates example_processor [[1/2, 1/2, 1/4, 1/4, 1, 3/10, 9/10]] (1/2) =
     Inr [\<lparr>det_x = 8, det_y = 8, det_w = 5, det_h = 5, det_class = 1,
           det_class_name = ''bus'', det_confidence = 9/10\<rparr>]"
proof -
  have "dom (proc_classes example_processor) = {0, 1, 2}"
    by (auto simp: example_processor_def ImageProcessor_init_def enumerate_classes_def
        upt_rec split: if_splits)
  then show ?thesis by (simp add: decoder_eval)
qed

text \<open>
  Claim C2, amended. The decoder does not compare the row width with the catalog. If
  some row has five entries or fewer, its score vector is empty and the call fails with
  the \<^verbatim>\<open>ValueError\<close> of \<^verbatim>\<open>np.argmax\<close>, before any box is returned. If every row has more
  than five entries, each row is decoded by the same rule whatever its width: the only
  failure left is the \<^verbatim>\<open>KeyError\<close> of the name lookup for a row above the threshold
  whose class index is not in the catalog, and when every such row has its class index
  in the catalog a list is returned.
\<close>

theorem decoder_row_width:
  "((\<exists>row\<in>set outputs. length row \<le> 5) \<longrightarrow>
      get_coordinates P outputs conf = Inl (ValueError Argmax_of_an_empty_sequence)) \<and>
   ((\<forall>row\<in>set outputs. 5 < length row) \<longrightarrow>
      (\<forall>e. get_coordinates P outputs conf = Inl e \<longrightarrow>
         (\<exists>row\<in>set outputs. conf < row_confidence row \<and>
            e = KeyError (int (row_classID row)) \<and>
            proc_classes P (int (row_classID row)) = None)) \<and>
      ((\<forall>row\<in>set outputs. conf < row_confidence row \<longrightarrow>
            proc_classes P (int (row_classID row)) \<noteq> None) \<longrightarrow>
         (\<exists>ds. get_coordinates P outputs conf = Inr ds)))"
proof (intro conjI impI allI)
  assume "\<exists>row\<in>set outputs. length row \<le> 5"
  from rows_short_row [OF this]
  show "get_coordinates P outputs conf = Inl (ValueError Argmax_of_an_empty_sequence)"
    by (simp add: get_coordinates_def)
next
  fix e
  assume wf: "\<forall>row\<in>set outputs. 5 < length row"
    and fail: "get_coordinates P outputs conf = Inl e"
  let ?S = "filter (\<lambda>row. conf < row_confidence row) outputs"
  let ?ix = "NMSBoxes (map (row_box P) ?S) (map row_confidence ?S) conf
      (conf - NMS_THRESHOLD_OFFSET)"
  have rows: "get_coordinates_rows P conf outputs ([], [], []) =
      Inr (map (row_box P) ?S, map row_confidence ?S, map row_classID ?S)"
    using rows_well_formed [OF wf, of P conf "[]" "[]" "[]"] by simp
  with fail have f: "get_coordinates_format P (map (row_box P) ?S) (map row_confidence ?S)
       (map row_classID ?S) ?ix = Inl e"
    by (auto simp: get_coordinates_def Let_def split: if_splits)
  have "\<forall>i\<in>set ?ix. i < length (map (row_box P) ?S) \<and> i < length (map row_classID ?S) \<and>
      i < length (map row_confidence ?S)"
    using NMSBoxes_in_range by fastforce
  from format_fails [OF this f] obtain i where
    i: "i \<in> set ?ix" "e = KeyError (int (map row_classID ?S ! i))"
       "proc_classes P (int (map row_classID ?S ! i)) = None"
    by blast
  from NMSBoxes_in_range [OF i(1)] have len: "i < length ?S" by simp
  have "\<forall>row\<in>set ?S. row \<in> set outputs \<and> conf < row_confidence row" by simp
  moreover have "?S ! i \<in> set ?S" using len by (rule nth_mem)
  ultimately have "?S ! i \<in> set outputs" "conf < row_confidence (?S ! i)" by blast+
  with i len show "\<exists>row\<in>set outputs. conf < row_confidence row \<and>
            e = KeyError (int (row_classID row)) \<and>
            proc_classes P (int (row_classID row)) = None"
    by auto
next
  assume "\<forall>row\<in>set outputs. 5 < length row"
    and "\<forall>row\<in>set outputs. conf < row_confidence row \<longrightarrow>
            proc_classes P (int (row_classID row)) \<noteq> None"
  then show "\<exists>ds. get_coordinates P outputs conf = Inr ds"
    by (rule get_coordinates_succeeds)
qed

theorem decoder_row_width_witness:
  "length [1/2, 1/2 :: real] \<le> 5 \<and>
   get_coordinates example_processor [[1/2, 1/2]] (1/2) =
     Inl (ValueError Argmax_of_an_empty_sequence) \<and>
   get_coordinates example_processor [[1/2, 1/2, 1/4, 1/4, 1, 3/10, 2/10, 1/10, 9/10]] (1/2) =
     Inl (KeyError 3) \<and>
   proc_classes example_processor 3 = None"
proof -
  have a: "\<exists>row\<in>set [[1/2, 1/2 :: real]]. length row \<le> 5" by simp
  have b: "\<forall>row\<in>set [[1/2, 1/2, 1/4, 1/4, 1, 3/10, 2/10, 1/10, 9/10 :: real]]. 5 < length row"
    by simp
  have c: "get_coordinates example_processor
      [[1/2, 1/2, 1/4, 1/4, 1, 3/10, 2/10, 1/10, 9/10]] (1/2) = Inl (KeyError 3)"
    by (simp add: decoder_eval)
  have r: "row_classID [1/2, 1/2, 1/4, 1/4, 1, 3/10, 2/10, 1/10, 9/10] = 3"
    by (simp add: row_classID_def argmax_def)
  from decoder_row_width [of "[[1/2, 1/2]]" example_processor "1/2"] a
  have "get_coordinates example_processor [[1/2, 1/2]] (1/2) =
     Inl (ValueError Argmax_of_an_empty_sequence)" by blast
  moreover from decoder_row_width
    [of "[[1/2, 1/2, 1/4, 1/4, 1, 3/10, 2/10, 1/10, 9/10]]" example_processor "1/2"] b c r
  have "proc_classes example_processor 3 = None" by simp
  ultimately show ?thesis using c by simp
qed

section \<open>Non-maximum suppression, run twice\<close>

subsection \<open>The greedy selection\<close>

lemma greedy_nms_length_le: "length (greedy_nms box_of t cs) \<le> length cs"
proof (induction box_of t cs rule: greedy_nms.induct)
  case (1 box_of t)
  show ?case by simp
next
  case (2 box_of t c cs)
  have "length (filter (\<lambda>d. \<not> t < iou (box_of c) (box_of d)) cs) \<le> length cs"
    by (rule length_filter_le)
  with "2.IH" have "length (greedy_nms box_of t
      (filter (\<lambda>d. \<not> t < iou (box_of c) (box_of d)) cs)) \<le> length cs"
    by (rule le_trans)
  then show ?case by simp
qed

lemma filter_same_length:
  "length (filter Q xs) = length xs \<Longrightarrow> filter Q xs = xs"
proof (induction xs)
  case Nil
  show ?case by simp
next
  case (Cons x xs)
  have le: "length (filter Q xs) \<le> length xs" by (rule length_filter_le)
  show ?case
  proof (cases "Q x")
    case True
    with Cons show ?thesis by simp
  next
    case False
    with Cons.prems le show ?thesis by simp
  qed
qed

lemma greedy_nms_same_length:
  "length (greedy_nms box_of t cs) = length cs \<Longrightarrow> greedy_nms box_of t cs = cs"
proof (induction box_of t cs rule: greedy_nms.induct)
  case (1 box_of t)
  show ?case by simp
next
  case (2 box_of t c cs)
  define rest where "rest = filter (\<lambda>d. \<not> t < iou (box_of c) (box_of d)) cs"
  have a: "length (greedy_nms box_of t rest) \<le> length rest"
    by (rule greedy_nms_length_le)
  have b: "length rest \<le> length cs" unfolding rest_def by (rule length_filter_le)
  from "2.prems" have "length (greedy_nms box_of t rest) = length cs"
    by (simp add: rest_def)
  with a b have l1: "length rest = length cs"
    and l2: "length (greedy_nms box_of t rest) = length rest"
    by linarith+
  from l1 have r: "rest = cs" unfolding rest_def by (rule filter_same_length)
  from l2 have "greedy_nms box_of t rest = rest"
    unfolding rest_def by (rule "2.IH")
  with r have "greedy_nms box_of t rest = cs" by simp
  then show ?case by (simp add: rest_def)
qed

lemma greedy_nms_idem:
  "greedy_nms box_of t (greedy_nms box_of t cs) = greedy_nms box_of t cs"
proof (induction box_of t cs rule: greedy_nms.induct)
  case (1 box_of t)
  show ?case by simp
next
  case (2 box_of t c cs)
  define Q where "Q = (\<lambda>d. \<not> t < iou (box_of c) (box_of d))"
  define G where "G = greedy_nms box_of t (filter Q cs)"
  have "set G \<subseteq> set (filter Q cs)" unfolding G_def by (rule greedy_nms_subset)
  then have "\<forall>d\<in>set G. Q d" by auto
  then have f: "filter Q G = G" by (simp add: filter_id_conv)
  have ih: "greedy_nms box_of t G = G"
    using "2.IH" by (simp add: G_def Q_def)
  have "greedy_nms box_of t (c # cs) = c # G" by (simp add: G_def Q_def)
  moreover have "greedy_nms box_of t (c # G) = c # greedy_nms box_of t (filter Q G)"
    by (simp add: Q_def)
  ultimately show ?case using f ih by simp
qed

lemma greedy_nms_map_gen:
  "(\<And>c. box_of' c = box_of (f c)) \<Longrightarrow>
   map f (greedy_nms box_of' t cs) = greedy_nms box_of t (map f cs)"
proof (induction box_of' t cs rule: greedy_nms.induct)
  case (1 box_of' t)
  show ?case by simp
next
  case (2 box_of' t c cs)
  have m: "map f (filter (\<lambda>d. \<not> t < iou (box_of' c) (box_of' d)) cs) =
        filter (\<lambda>d. \<not> t < iou (box_of (f c)) (box_of d)) (map f cs)"
    by (simp add: filter_map comp_def "2.prems")
  have "map f (greedy_nms box_of' t (filter (\<lambda>d. \<not> t < iou (box_of' c) (box_of' d)) cs)) =
        greedy_nms box_of t (map f (filter (\<lambda>d. \<not> t < iou (box_of' c) (box_of' d)) cs))"
    by (rule "2.IH") (rule "2.prems")
  then show ?case by (simp add: m)
qed

lemma greedy_nms_map:
  "map f (greedy_nms (\<lambda>c. box_of (f c)) t cs) = greedy_nms box_of t (map f cs)"
  by (rule greedy_nms_map_gen) simp

lemma greedy_nms_sorted:
  "sorted (map k cs) \<Longrightarrow> sorted (map k (greedy_nms box_of t cs))"
proof (induction box_of t cs rule: greedy_nms.induct)
  case (1 box_of t)
  show ?case by simp
next
  case (2 box_of t c cs)
  define rest where "rest = filter (\<lambda>d. \<not> t < iou (box_of c) (box_of d)) cs"
  from "2.prems" have s: "sorted (map k cs)" and h: "\<forall>d\<in>set cs. k c \<le> k d"
    by simp_all
  from s have "sorted (map k rest)" unfolding rest_def by (rule sorted_filter)
  then have g: "sorted (map k (greedy_nms box_of t rest))"
    unfolding rest_def by (rule "2.IH")
  have "set (greedy_nms box_of t rest) \<subseteq> set rest" by (rule greedy_nms_subset)
  then have "set (greedy_nms box_of t rest) \<subseteq> set cs" by (auto simp: rest_def)
  with h have "\<forall>d\<in>set (greedy_nms box_of t rest). k c \<le> k d" by blast
  with g have "sorted (map k (c # greedy_nms box_of t rest))" by simp
  then show ?case by (simp add: rest_def)
qed

lemma numbered_entry:
  assumes "c \<in> set (zip [0..<length boxes] (zip boxes scores))"
  shows "fst (snd c) = boxes ! fst c \<and> snd (snd c) = scores ! fst c"
proof -
  from assms obtain j where j: "j < length (zip [0..<length boxes] (zip boxes scores))"
    "c = zip [0..<length boxes] (zip boxes scores) ! j"
    by (metis in_set_conv_nth)
  then show ?thesis by simp
qed

lemma NMSBoxes_again:
  "NMSBoxes (map (\<lambda>i. boxes ! i) (NMSBoxes boxes scores st nt))
            (map (\<lambda>i. scores ! i) (NMSBoxes boxes scores st nt)) st' nt =
   [0..<length (NMSBoxes boxes scores st nt)]"
proof -
  define p where "p = (\<lambda>c :: nat \<times> box \<times> real. fst (snd c))"
  define k where "k = (\<lambda>c :: nat \<times> box \<times> real. - snd (snd c))"
  define K where "K = greedy_nms p nt
      (sort_key k (zip [0..<length boxes] (zip boxes scores)))"
  define T' where "T' = zip [0..<length K] (map snd K)"
  have idx: "NMSBoxes boxes scores st nt = map fst K"
    by (simp add: NMSBoxes_def K_def p_def k_def)
  have "set K \<subseteq> set (sort_key k (zip [0..<length boxes] (zip boxes scores)))"
    unfolding K_def by (rule greedy_nms_subset)
  then have sub: "set K \<subseteq> set (zip [0..<length boxes] (zip boxes scores))"
    by simp
  have entries: "boxes ! fst c = fst (snd c) \<and> scores ! fst c = snd (snd c)"
    if "c \<in> set K" for c
  proof -
    from that sub have "c \<in> set (zip [0..<length boxes] (zip boxes scores))" by blast
    from numbered_entry [OF this] show ?thesis by simp
  qed
  have b': "map (\<lambda>i. boxes ! i) (map fst K) = map fst (map snd K)"
    using entries by simp
  have s': "map (\<lambda>i. scores ! i) (map fst K) = map snd (map snd K)"
    using entries by simp
  have z: "zip (map fst (map snd K)) (map snd (map snd K)) = map snd K"
    by (rule zip_map_fst_snd)
  have sndT': "map snd T' = map snd K" by (simp add: T'_def)
  have fstT': "map fst T' = [0..<length K]" by (simp add: T'_def)
  have "sorted (map k (sort_key k (zip [0..<length boxes] (zip boxes scores))))"
    by (rule sorted_sort_key)
  then have sK: "sorted (map k K)" unfolding K_def by (rule greedy_nms_sorted)
  have "map k T' = map (\<lambda>y. - snd y) (map snd T')" by (simp add: k_def comp_def)
  also have "\<dots> = map (\<lambda>y. - snd y) (map snd K)" by (simp only: sndT')
  also have "\<dots> = map k K" by (simp add: k_def comp_def)
  finally have "sorted (map k T')" using sK by simp
  then have sortT': "sort_key k T' = T'" by (rule sort_key_id_if_sorted)
  have pf: "p = (\<lambda>c. fst (snd c))" by (simp add: p_def)
  have "map snd (greedy_nms p nt T') = greedy_nms fst nt (map snd T')"
    unfolding pf by (rule greedy_nms_map)
  also have "\<dots> = greedy_nms fst nt (map snd K)" by (simp only: sndT')
  also have "\<dots> = map snd (greedy_nms p nt K)"
    unfolding pf by (rule greedy_nms_map [symmetric])
  also have "greedy_nms p nt K = K" unfolding K_def by (rule greedy_nms_idem)
  finally have "map snd (greedy_nms p nt T') = map snd K" .
  then have "length (map snd (greedy_nms p nt T')) = length (map snd K)" by (rule arg_cong)
  then have "length (greedy_nms p nt T') = length T'" by (simp add: T'_def)
  then have g: "greedy_nms p nt T' = T'" by (rule greedy_nms_same_length)
  have "NMSBoxes (map fst (map snd K)) (map snd (map snd K)) st' nt =
      map fst (greedy_nms p nt (sort_key k T'))"
    unfolding NMSBoxes_def T'_def p_def k_def by (simp only: z length_map)
  also have "\<dots> = map fst T'" by (simp only: sortT' g)
  also have "\<dots> = [0..<length K]" by (rule fstT')
  finally have "NMSBoxes (map fst (map snd K)) (map snd (map snd K)) st' nt = [0..<length K]" .
  then show ?thesis by (simp only: idx b' s' length_map)
qed

subsection \<open>Idempotence\<close>

text \<open>
  Claim C8. NMS is idempotent. Take any candidate lists and the thresholds the decoder
  uses (the confidence threshold, and that threshold minus the offset 0.1 for the
  overlap). Let the boxes that survive, with the confidences they were kept with, be fed
  to the NMS stage again as candidates, under the same thresholds. Then every one of them
  is selected again, in the same order: the second result is the list of all positions,
  and the boxes and confidences it denotes are the ones that were fed in.
\<close>

theorem nms_idempotent:
  "(let kept = NMSBoxes boxes confidences conf (conf - NMS_THRESHOLD_OFFSET);
        boxes' = map (\<lambda>i. boxes ! i) kept;
        confidences' = map (\<lambda>i. confidences ! i) kept;
        again = NMSBoxes boxes' confidences' conf (conf - NMS_THRESHOLD_OFFSET)
    in again = [0..<length kept] \<and>
       map (\<lambda>i. boxes' ! i) again = boxes' \<and>
       map (\<lambda>i. confidences' ! i) again = confidences')"
proof -
  define kept where "kept = NMSBoxes boxes confidences conf (conf - NMS_THRESHOLD_OFFSET)"
  define boxes' where "boxes' = map (\<lambda>i. boxes ! i) kept"
  define confidences' where "confidences' = map (\<lambda>i. confidences ! i) kept"
  define again where
    "again = NMSBoxes boxes' confidences' conf (conf - NMS_THRESHOLD_OFFSET)"
  have a: "again = [0..<length kept]"
    unfolding again_def boxes'_def confidences'_def kept_def by (rule NMSBoxes_again)
  have "map (\<lambda>i. boxes' ! i) [0..<length boxes'] = boxes'" by (rule map_nth)
  then have b: "map (\<lambda>i. boxes' ! i) again = boxes'" by (simp add: a boxes'_def)
  have "map (\<lambda>i. confidences' ! i) [0..<length confidences'] = confidences'"
    by (rule map_nth)
  then have c: "map (\<lambda>i. confidences' ! i) again = confidences'"
    by (simp add: a confidences'_def)
  from a b c show ?thesis
    unfolding Let_def again_def boxes'_def confidences'_def kept_def by blast
qed

theorem nms_idempotent_witness:
  "NMSBoxes [(8, 8, 5, 5), (9, 8, 5, 5), (0, 0, 2, 2)] [9/10, 8/10, 7/10] (1/2)
     (1/2 - NMS_THRESHOLD_OFFSET) = [0, 2] \<and>
   NMSBoxes [(8, 8, 5, 5), (0, 0, 2, 2)] [9/10, 7/10] (1/2)
     (1/2 - NMS_THRESHOLD_OFFSET) = [0, 1]"
proof -
  have e: "NMSBoxes [(8, 8, 5, 5), (9, 8, 5, 5), (0, 0, 2, 2)] [9/10, 8/10, 7/10] (1/2)
     (1/2 - NMS_THRESHOLD_OFFSET) = [0, 2]"
    by (simp add: NMSBoxes_def iou_def NMS_THRESHOLD_OFFSET_def Let_def)
  from nms_idempotent [of "[(8, 8, 5, 5), (9, 8, 5, 5), (0, 0, 2, 2)]" "[9/10, 8/10, 7/10]" "1/2"]
  have "NMSBoxes [(8, 8, 5, 5), (0, 0, 2, 2)] [9/10, 7/10] (1/2)
     (1/2 - NMS_THRESHOLD_OFFSET) = [0, 1]"
    unfolding Let_def e by (simp add: upt_rec)
  with e show ?thesis by simp
qed

end
